theory Spec2Isabelle
  imports Complex_Main "HOL-Library.AList"
begin

section \<open>Python values and exceptions\<close>

text \<open>
  The exceptions the two modules can raise. \<open>TapeExhausted\<close> is not an exception of the
  program: the outputs of Python's \<open>random\<close> module are supplied to the model as a finite
  list of draws, and a run that needs more draws than the list holds stops with it.
\<close>

datatype error = KeyError | IndexError | ValueError | TypeError | AttributeError | TapeExhausted

text \<open>
  A value that is either a Python \<open>int\<close> or a Python \<open>str\<close>. Python's \<open>==\<close> between the
  two is \<open>False\<close>, as the equality of this datatype is.
\<close>

datatype pyval = PyInt int | PyStr string

text \<open>\<open>str(n)\<close> and \<open>int(s)\<close> on integers, \<open>bin(n)[2:]\<close> on positive integers.\<close>

definition digit_char :: "nat \<Rightarrow> char" where
  "digit_char d = ''0123456789'' ! d"

fun digits :: "nat \<Rightarrow> string" where
  "digits n = (if n < 10 then [digit_char n] else digits (n div 10) @ [digit_char (n mod 10)])"

declare digits.simps [simp del]

definition str :: "int \<Rightarrow> string" where
  "str i = (if i < 0 then CHR ''-'' # digits (nat (- i)) else digits (nat i))"

definition digit_val :: "char \<Rightarrow> nat option" where
  "digit_val c =
     (if (48::nat) \<le> of_char c \<and> of_char c \<le> (57::nat) then Some (of_char c - 48) else None)"

fun parse_digits :: "nat \<Rightarrow> string \<Rightarrow> nat option" where
  "parse_digits acc [] = Some acc"
| "parse_digits acc (c # cs) =
     (case digit_val c of None \<Rightarrow> None | Some d \<Rightarrow> parse_digits (10 * acc + d) cs)"

text \<open>
  \<open>int(s)\<close> for an optional sign followed by decimal digits. Python also accepts
  surrounding whitespace and underscores between digits; the program builds its keys with
  \<open>str\<close> or from lowercase letters, so those spellings are left as \<open>ValueError\<close> here.
\<close>

definition py_int :: "string \<Rightarrow> error + int" where
  "py_int s =
     (case s of
        [] \<Rightarrow> Inl ValueError
      | c # cs \<Rightarrow>
          if c = CHR ''-'' \<or> c = CHR ''+'' then
            (if cs = [] then Inl ValueError
             else case parse_digits 0 cs of
                    None \<Rightarrow> Inl ValueError
                  | Some n \<Rightarrow> Inr (if c = CHR ''-'' then - int n else int n))
          else case parse_digits 0 s of None \<Rightarrow> Inl ValueError | Some n \<Rightarrow> Inr (int n))"

fun bin :: "nat \<Rightarrow> string" where
  "bin n = (if n < 2 then [digit_char n] else bin (n div 2) @ [digit_char (n mod 2)])"

declare bin.simps [simp del]

section \<open>PathORAM.py: the perfect tree\<close>

text \<open>
  A \<open>Node\<close> holds \<open>parent\<close>, \<open>left\<close>, \<open>right\<close> and \<open>value\<close>. \<open>build_tree_arr\<close> appends, for
  every node of level \<open>l\<close> in order, its new left and right child to level \<open>l + 1\<close>, so the
  children of \<open>tree_arr[l][j]\<close> are \<open>tree_arr[l + 1][2 j]\<close> and \<open>tree_arr[l + 1][2 j + 1]\<close>.
  The model names a node by its position \<open>(level, index)\<close> in \<open>tree_arr\<close>, keeps only the
  mutable \<open>value\<close> field in the array (\<open>None\<close> until the client fills it) and computes the
  pointer fields from the position.
\<close>

datatype token = Token (iv: nat) (plain: string)

type_synonym bucket = "(token \<times> token) list"

type_synonym node = "bucket option"

record perfect_tree =
  pt_size :: int
  pt_height :: nat
  pt_tree_arr :: "node list list"

text \<open>
  \<open>math.log(size, 2)\<close> is taken as the real logarithm; it raises \<open>ValueError\<close> on a
  non-positive argument.
\<close>

definition fix_size :: "int \<Rightarrow> error + int" where
  "fix_size sz =
     (if sz \<le> 0 then Inl ValueError
      else Inr ((if \<lceil>log 2 (real_of_int sz)\<rceil> \<noteq> \<lfloor>log 2 (real_of_int sz)\<rfloor>
                 then sz + 1 else sz) - 1))"

definition build_tree_arr :: "nat \<Rightarrow> node list list \<Rightarrow> node list list" where
  "build_tree_arr h arr =
     foldl (\<lambda>arr level. arr @ [concat (map (\<lambda>cur_node. [None, None]) (arr ! level))])
       arr [0..<h]"

definition PerfectTree :: "int \<Rightarrow> error + perfect_tree" where
  "PerfectTree sz =
     (case fix_size (sz + 1) of
        Inl e \<Rightarrow> Inl e
      | Inr sz' \<Rightarrow>
          if sz' \<le> 0 then Inl ValueError
          else let h = nat \<lfloor>log 2 (real_of_int sz')\<rfloor> in
            Inr \<lparr>pt_size = sz', pt_height = h, pt_tree_arr = build_tree_arr h [[None]]\<rparr>)"

definition leaves :: "perfect_tree \<Rightarrow> node list" where
  "leaves t = last (pt_tree_arr t)"

definition is_power_of_two :: "int \<Rightarrow> bool" where
  "is_power_of_two n = (\<exists>k::nat. n = 2 ^ k)"

section \<open>PathORAM.py: client, server and the sources of randomness\<close>

text \<open>
  \<open>Fernet.encrypt\<close> returns a fresh token for every call, also for equal plaintexts; the
  model numbers the tokens from a counter (\<open>next_iv\<close>) and \<open>decrypt\<close> reads the plaintext
  back. Tokens forged under another key (\<open>InvalidToken\<close>) are outside the model.
  \<open>HMAC.new(key, digestmod=SHA256)\<close> followed by \<open>update(msg)\<close> and \<open>hexdigest()\<close> is the
  symbolic tag \<open>HMAC_SHA256 key msg\<close>.
\<close>

datatype tag = HMAC_SHA256 nat string

text \<open>
  One record holds the client (\<open>memory\<close>, \<open>key\<close>), the server it talks to (\<open>height\<close>,
  \<open>tree_arr\<close>; \<open>bucket_size\<close>, \<open>leaf_min\<close> and \<open>leaf_max\<close> are set once from them) and the
  two sources of fresh values: the draws of \<open>random\<close> and the token counter. A bucket is a
  Python \<open>dict\<close> from key token to value token, kept in insertion order.
\<close>

record state =
  memory :: "int \<rightharpoonup> string \<times> tag"
  key :: nat
  height :: nat
  tree_arr :: "node list list"
  tape :: "nat list"
  next_iv :: nat

definition DUMMY_LEN :: nat where "DUMMY_LEN = 3"
definition DUM_VAL :: char where "DUM_VAL = CHR ''0''"
definition DATA_LEN :: nat where "DATA_LEN = 4"
definition BUCKET_SIZE :: nat where "BUCKET_SIZE = 4"

definition leaf_min :: "state \<Rightarrow> int" where
  "leaf_min s = 2 ^ (height s + 1)"

definition leaf_max :: "state \<Rightarrow> int" where
  "leaf_max s = leaf_min s * 2 - 1"

text \<open>\<open>Server(data_blocks)\<close> with a new \<open>Client()\<close> whose key is \<open>k\<close>.\<close>

definition Server :: "int \<Rightarrow> nat \<Rightarrow> nat list \<Rightarrow> error + state" where
  "Server data_blocks k draws =
     (case PerfectTree data_blocks of
        Inl e \<Rightarrow> Inl e
      | Inr t \<Rightarrow> Inr \<lparr>memory = Map.empty, key = k, height = pt_height t,
                      tree_arr = pt_tree_arr t, tape = draws, next_iv = 0\<rparr>)"

text \<open>
  A method is a function from the state to an outcome and the state it leaves: a raised
  exception keeps the mutations made before it.
\<close>

type_synonym 'a m = "state \<Rightarrow> (error + 'a) \<times> state"

definition ret :: "'a \<Rightarrow> 'a m" where
  "ret x s = (Inr x, s)"

definition raise :: "error \<Rightarrow> 'a m" where
  "raise e s = (Inl e, s)"

definition bnd :: "'a m \<Rightarrow> ('a \<Rightarrow> 'b m) \<Rightarrow> 'b m" where
  "bnd f g s = (case f s of (Inl e, s') \<Rightarrow> (Inl e, s') | (Inr x, s') \<Rightarrow> g x s')"

definition get :: "state m" where
  "get s = (Inr s, s)"

definition modify :: "(state \<Rightarrow> state) \<Rightarrow> unit m" where
  "modify f s = (Inr (), f s)"

fun for_each :: "'a list \<Rightarrow> ('a \<Rightarrow> unit m) \<Rightarrow> unit m" where
  "for_each [] body = ret ()"
| "for_each (x # xs) body = bnd (body x) (\<lambda>_. for_each xs body)"

subsection \<open>random and Fernet\<close>

definition randint :: "int \<Rightarrow> int \<Rightarrow> nat m" where
  "randint a b s =
     (if b < a then (Inl ValueError, s)
      else case tape s of
             [] \<Rightarrow> (Inl TapeExhausted, s)
           | x # xs \<Rightarrow> (Inr (nat (a + int x mod (b - a + 1))), s\<lparr>tape := xs\<rparr>))"

text \<open>
  \<open>rand2 = randint(a, b)\<close> followed by \<open>while rand1 == rand2: rand2 = randint(a, b)\<close>.
\<close>

fun draw_until_differs :: "int \<Rightarrow> int \<Rightarrow> nat \<Rightarrow> nat list \<Rightarrow> (error + nat) \<times> nat list" where
  "draw_until_differs a b rand1 [] = (Inl TapeExhausted, [])"
| "draw_until_differs a b rand1 (x # xs) =
     (if rand1 = nat (a + int x mod (b - a + 1)) then draw_until_differs a b rand1 xs
      else (Inr (nat (a + int x mod (b - a + 1))), xs))"

definition randint_other :: "int \<Rightarrow> int \<Rightarrow> nat \<Rightarrow> nat m" where
  "randint_other a b rand1 s =
     (if b < a then (Inl ValueError, s)
      else case draw_until_differs a b rand1 (tape s) of (r, t) \<Rightarrow> (r, s\<lparr>tape := t\<rparr>))"

definition random_choice :: "string \<Rightarrow> char m" where
  "random_choice letters s =
     (if letters = [] then (Inl IndexError, s)
      else case tape s of
             [] \<Rightarrow> (Inl TapeExhausted, s)
           | x # xs \<Rightarrow> (Inr (letters ! (x mod length letters)), s\<lparr>tape := xs\<rparr>))"

definition ascii_lowercase :: string where
  "ascii_lowercase = ''abcdefghijklmnopqrstuvwxyz''"

fun get_random_string :: "nat \<Rightarrow> string m" where
  "get_random_string 0 = ret []"
| "get_random_string (Suc n) =
     bnd (random_choice ascii_lowercase) (\<lambda>c. bnd (get_random_string n) (\<lambda>cs. ret (c # cs)))"

definition encrypt :: "string \<Rightarrow> token m" where
  "encrypt p s = (Inr (Token (next_iv s) p), s\<lparr>next_iv := Suc (next_iv s)\<rparr>)"

definition decrypt :: "token \<Rightarrow> string" where
  "decrypt t = plain t"

subsection \<open>Server: navigation\<close>

definition get_root :: "nat \<times> nat" where
  "get_root = (0, 0)"

definition num_nodes_in_level :: "nat \<Rightarrow> nat m" where
  "num_nodes_in_level i s =
     (if i < length (tree_arr s) then (Inr (length (tree_arr s ! i)), s) else (Inl IndexError, s))"

definition get_node_in_level :: "nat \<Rightarrow> nat \<Rightarrow> (nat \<times> nat) m" where
  "get_node_in_level i j s =
     (if i < length (tree_arr s) \<and> j < length (tree_arr s ! i) then (Inr (i, j), s)
      else (Inl IndexError, s))"

definition left :: "state \<Rightarrow> nat \<times> nat \<Rightarrow> (nat \<times> nat) option" where
  "left s n = (if fst n < height s then Some (Suc (fst n), 2 * snd n) else None)"

definition right :: "state \<Rightarrow> nat \<times> nat \<Rightarrow> (nat \<times> nat) option" where
  "right s n = (if fst n < height s then Some (Suc (fst n), 2 * snd n + 1) else None)"

text \<open>\<open>node.value\<close>, read and assigned.\<close>

definition node_value :: "nat \<times> nat \<Rightarrow> node m" where
  "node_value n s =
     (if fst n < length (tree_arr s) \<and> snd n < length (tree_arr s ! fst n)
      then (Inr (tree_arr s ! fst n ! snd n), s) else (Inl IndexError, s))"

definition set_node_value :: "nat \<times> nat \<Rightarrow> node \<Rightarrow> unit m" where
  "set_node_value n v s =
     (if fst n < length (tree_arr s) \<and> snd n < length (tree_arr s ! fst n)
      then (Inr (), s\<lparr>tree_arr := (tree_arr s)[fst n := (tree_arr s ! fst n)[snd n := v]]\<rparr>)
      else (Inl IndexError, s))"

text \<open>The bucket of a node as a dict: iterating over \<open>None\<close> raises \<open>TypeError\<close>.\<close>

definition node_dict :: "nat \<times> nat \<Rightarrow> bucket m" where
  "node_dict n = bnd (node_value n) (\<lambda>v. case v of None \<Rightarrow> raise TypeError | Some d \<Rightarrow> ret d)"

text \<open>\<open>del d[k]\<close> and \<open>d[k] = v\<close> on a dict in insertion order.\<close>

definition dict_del :: "token \<Rightarrow> bucket \<Rightarrow> bucket m" where
  "dict_del k d = (if k \<in> fst ` set d then ret (AList.delete k d) else raise KeyError)"

definition dict_set :: "token \<Rightarrow> token \<Rightarrow> bucket \<Rightarrow> bucket" where
  "dict_set k v d = AList.update k v d"

definition dict_get :: "token \<Rightarrow> bucket \<Rightarrow> token m" where
  "dict_get k d = (case map_of d k of None \<Rightarrow> raise KeyError | Some v \<Rightarrow> ret v)"

definition lift :: "error + 'a \<Rightarrow> 'a m" where
  "lift r = (case r of Inl e \<Rightarrow> raise e | Inr x \<Rightarrow> ret x)"

subsection \<open>Client: private methods\<close>

text \<open>
  The methods keep their names without the leading underscore. The first key of a bucket
  whose value decrypts to a plaintext starting with \<open>DUM_VAL\<close>: the scan of
  \<open>for key in node.value: if decrypt(node.value[key])[0] == DUM_VAL\<close>, where indexing an
  empty plaintext raises \<open>IndexError\<close>.
\<close>

fun find_dummy :: "bucket \<Rightarrow> error + token option" where
  "find_dummy [] = Inr None"
| "find_dummy ((k, v) # kvs) =
     (case decrypt v of
        [] \<Rightarrow> Inl IndexError
      | c # _ \<Rightarrow> if c = DUM_VAL then Inr (Some k) else find_dummy kvs)"

text \<open>
  \<open>d[encrypt(get_random_string(DUMMY_LEN))] = encrypt(b'00000')\<close>: Python evaluates the
  right-hand side first.
\<close>

definition add_dummy :: "bucket \<Rightarrow> bucket m" where
  "add_dummy d =
     bnd (encrypt ''00000'') (\<lambda>v.
     bnd (get_random_string DUMMY_LEN) (\<lambda>r.
     bnd (encrypt r) (\<lambda>k.
     ret (dict_set k v d))))"

definition fill_node :: "nat \<times> nat \<Rightarrow> unit m" where
  "fill_node n =
     bnd (set_node_value n (Some [])) (\<lambda>_.
     for_each [0..<BUCKET_SIZE] (\<lambda>i.
       bnd (node_dict n) (\<lambda>d.
       bnd (add_dummy d) (\<lambda>d'.
       set_node_value n (Some d')))))"

definition fill_server_with_dummies :: "unit m" where
  "fill_server_with_dummies =
     bnd get (\<lambda>s.
     for_each [0..<height s + 1] (\<lambda>level.
       bnd (num_nodes_in_level level) (\<lambda>n.
       for_each [0..<n] (\<lambda>j.
         bnd (get_node_in_level level j) fill_node))))"

fun reencrypt :: "bucket \<Rightarrow> bucket \<Rightarrow> bucket m" where
  "reencrypt [] new_dict = ret new_dict"
| "reencrypt ((k, v) # kvs) new_dict =
     bnd (encrypt (decrypt k)) (\<lambda>enc_key.
     bnd (encrypt (decrypt v)) (\<lambda>enc_val.
     reencrypt kvs (dict_set enc_key enc_val new_dict)))"

definition encrypt_node :: "nat \<times> nat \<Rightarrow> unit m" where
  "encrypt_node n =
     bnd (node_dict n) (\<lambda>d.
     bnd (reencrypt d []) (\<lambda>new_dict.
     set_node_value n (Some new_dict)))"

text \<open>
  \<open>direction\<close> is an \<open>int\<close> drawn by \<open>randint(0, 1)\<close> for a dummy and the character
  \<open>memory[int(dec_key)][0][level]\<close>, a \<open>str\<close>, for a real entry; the child is chosen by
  \<open>direction == 0\<close>.
\<close>

definition push_selected_data :: "token \<Rightarrow> token \<Rightarrow> nat \<times> nat \<Rightarrow> nat \<Rightarrow> unit m" where
  "push_selected_data k data prev_node level =
     bnd (case decrypt data of
            [] \<Rightarrow> raise IndexError
          | c # _ \<Rightarrow>
              if c = DUM_VAL then bnd (randint 0 1) (\<lambda>r. ret (PyInt (int r)))
              else bnd (lift (py_int (decrypt k))) (\<lambda>i.
                   bnd get (\<lambda>s.
                   case memory s i of
                     None \<Rightarrow> raise KeyError
                   | Some (bits, t) \<Rightarrow>
                       if level < length bits then ret (PyStr [bits ! level])
                       else raise IndexError))) (\<lambda>direction.
     bnd get (\<lambda>s.
     let next_node = (if direction = PyInt 0 then left s prev_node else right s prev_node) in
     bnd (node_dict prev_node) (\<lambda>d.
     bnd (dict_del k d) (\<lambda>d1.
     bnd (set_node_value prev_node (Some d1)) (\<lambda>_.
     bnd (add_dummy d1) (\<lambda>d2.
     bnd (set_node_value prev_node (Some d2)) (\<lambda>_.
     case next_node of
       None \<Rightarrow> raise AttributeError
     | Some nn \<Rightarrow>
         bnd (node_dict nn) (\<lambda>nd.
         bnd (lift (find_dummy nd)) (\<lambda>f.
         case f of
           None \<Rightarrow> ret ()
         | Some cur_key \<Rightarrow>
             bnd (dict_del cur_key nd) (\<lambda>nd1.
             set_node_value nn (Some (dict_set k data nd1))))))))))))"

definition list_index :: "'a list \<Rightarrow> nat \<Rightarrow> 'a m" where
  "list_index xs i = (if i < length xs then ret (xs ! i) else raise IndexError)"

definition node_keys :: "nat \<times> nat \<Rightarrow> token list m" where
  "node_keys n =
     bnd (node_value n) (\<lambda>v.
     case v of None \<Rightarrow> raise AttributeError | Some d \<Rightarrow> ret (map fst d))"

definition rand_and_push :: "nat \<times> nat \<Rightarrow> nat \<Rightarrow> unit m" where
  "rand_and_push n level =
     bnd (randint 0 (int BUCKET_SIZE - 1)) (\<lambda>rand1.
     bnd (node_keys n) (\<lambda>keys1.
     bnd (list_index keys1 rand1) (\<lambda>key1.
     bnd (node_dict n) (\<lambda>d.
     bnd (dict_get key1 d) (\<lambda>data1.
     bnd (randint_other 0 (int BUCKET_SIZE - 1) rand1) (\<lambda>rand2.
     bnd (node_keys n) (\<lambda>keys2.
     bnd (list_index keys2 rand2) (\<lambda>key2.
     bnd (dict_get key2 d) (\<lambda>data2.
     bnd (push_selected_data key1 data1 n level) (\<lambda>_.
     push_selected_data key2 data2 n level))))))))))"

fun push_levels :: "nat list \<Rightarrow> unit m" where
  "push_levels [] = ret ()"
| "push_levels (level # levels) =
     bnd get (\<lambda>s.
     if level = height s then ret ()
     else
       bnd (if level = 0 then rand_and_push get_root level
            else
              bnd (num_nodes_in_level level) (\<lambda>n.
              bnd (randint 0 (int n - 1)) (\<lambda>rand1.
              bnd (randint_other 0 (int n - 1) rand1) (\<lambda>rand2.
              bnd (get_node_in_level level rand1) (\<lambda>node1.
              bnd (get_node_in_level level rand2) (\<lambda>node2.
              for_each [node1, node2] (\<lambda>s_node. rand_and_push s_node level))))))) (\<lambda>_.
       push_levels levels))"

definition push_down :: "unit m" where
  "push_down = bnd get (\<lambda>s. push_levels [0..<height s + 1])"

subsection \<open>Client: public methods\<close>

definition store_data :: "int \<Rightarrow> string \<Rightarrow> string option m" where
  "store_data i data =
     bnd get (\<lambda>s.
     if memory s i \<noteq> None then ret (Some ''ID already exists. Please delete it first'')
     else
       bnd (node_value get_root) (\<lambda>v.
       bnd (if v = None then fill_server_with_dummies else ret ()) (\<lambda>_.
       bnd get (\<lambda>s1.
       bnd (randint (leaf_min s1) (leaf_max s1)) (\<lambda>leaf.
       bnd (modify (\<lambda>s. s\<lparr>memory := (memory s)(i \<mapsto>
              (bin leaf, HMAC_SHA256 (key s) (str i @ data)))\<rparr>)) (\<lambda>_.
       bnd (node_dict get_root) (\<lambda>d.
       bnd (lift (find_dummy d)) (\<lambda>f.
       bnd (case f of
              None \<Rightarrow> ret ()
            | Some k \<Rightarrow>
                bnd (dict_del k d) (\<lambda>d1.
                bnd (set_node_value get_root (Some d1)) (\<lambda>_.
                bnd (encrypt (CHR ''1'' # data)) (\<lambda>enc_val.
                bnd (encrypt (str i)) (\<lambda>enc_key.
                bnd (set_node_value get_root (Some (dict_set enc_key enc_val d1))) (\<lambda>_.
                encrypt_node get_root)))))) (\<lambda>_.
       bnd push_down (\<lambda>_.
       ret None))))))))))"

text \<open>
  The walk of \<open>retrieve_data\<close>: \<open>for level in range(len(path))\<close> with the variable
  \<open>cur_node\<close>, which is \<open>None\<close> below a leaf. \<open>path[level]\<close> is a character and is compared
  with the integer \<open>0\<close>.
\<close>

fun retrieve_walk :: "int \<Rightarrow> string \<Rightarrow> nat list \<Rightarrow> (nat \<times> nat) option \<Rightarrow> string option m" where
  "retrieve_walk i path [] cur_node = ret None"
| "retrieve_walk i path (level # levels) cur_node =
     (case cur_node of
        None \<Rightarrow> raise AttributeError
      | Some n \<Rightarrow>
          bnd (node_dict n) (\<lambda>d.
          case find (\<lambda>kv. decrypt (fst kv) = str i) d of
            Some (k, v) \<Rightarrow>
              bnd (dict_del k d) (\<lambda>d1.
              bnd (set_node_value n (Some d1)) (\<lambda>_.
              bnd (add_dummy d1) (\<lambda>d2.
              bnd (set_node_value n (Some d2)) (\<lambda>_.
              bnd get (\<lambda>s.
              bnd (if memory s i = None then raise KeyError
                   else modify (\<lambda>s. s\<lparr>memory := (memory s)(i := None)\<rparr>)) (\<lambda>_.
              bnd (store_data i (tl (decrypt v))) (\<lambda>_.
              ret (Some (tl (decrypt v))))))))))
          | None \<Rightarrow>
              bnd get (\<lambda>s.
              retrieve_walk i path levels
                (if PyStr [path ! level] = PyInt 0 then left s n else right s n))))"

definition retrieve_data :: "int \<Rightarrow> string option m" where
  "retrieve_data i =
     bnd get (\<lambda>s.
     case memory s i of
       None \<Rightarrow> raise KeyError
     | Some (bits, t) \<Rightarrow>
         bnd (retrieve_walk i (drop 1 bits) [0..<length (drop 1 bits)] (Some get_root)) (\<lambda>r.
         case r of
           None \<Rightarrow> ret None
         | Some data \<Rightarrow>
             if length data \<noteq> DATA_LEN then ret (Some ''Invalid data was returned by the server'')
             else
               bnd get (\<lambda>s'.
               case memory s' i of
                 None \<Rightarrow> raise KeyError
               | Some (bits', t') \<Rightarrow>
                   if HMAC_SHA256 (key s') (str i @ data) \<noteq> t'
                   then ret (Some ''The given id data was corrupted'')
                   else ret (Some data))))"

text \<open>
  The walk of \<open>delete_data\<close>. Unlike \<open>retrieve_data\<close> it does not decode the plaintext:
  the value returned is a Python \<open>bytes\<close>, which no \<open>str\<close> equals.
\<close>

datatype pybytes = PyBytes string

fun delete_walk :: "int \<Rightarrow> string \<Rightarrow> nat list \<Rightarrow> (nat \<times> nat) option \<Rightarrow> pybytes option m" where
  "delete_walk i path [] cur_node = ret None"
| "delete_walk i path (level # levels) cur_node =
     (case cur_node of
        None \<Rightarrow> raise AttributeError
      | Some n \<Rightarrow>
          bnd (node_dict n) (\<lambda>d.
          case find (\<lambda>kv. decrypt (fst kv) = str i) d of
            Some (k, v) \<Rightarrow>
              bnd (dict_del k d) (\<lambda>d1.
              bnd (set_node_value n (Some d1)) (\<lambda>_.
              bnd (add_dummy d1) (\<lambda>d2.
              bnd (set_node_value n (Some d2)) (\<lambda>_.
              ret (Some (PyBytes (tl (decrypt v))))))))
          | None \<Rightarrow>
              bnd get (\<lambda>s.
              delete_walk i path levels
                (if PyStr [path ! level] = PyInt 0 then left s n else right s n))))"

definition delete_data :: "int \<Rightarrow> pybytes option m" where
  "delete_data i =
     bnd get (\<lambda>s.
     case memory s i of
       None \<Rightarrow> raise KeyError
     | Some (bits, t) \<Rightarrow> delete_walk i (drop 1 bits) [0..<length (drop 1 bits)] (Some get_root))"

section \<open>PKI.py\<close>

text \<open>
  A certificate is the dict built by \<open>issue_cert\<close>; the \<open>Signature\<close> entry is absent from
  a root's default certificate and while a certificate is being signed or checked.
  \<open>rsa.sign\<close> and \<open>rsa.verify\<close> are symbolic: a key pair is a number, the signature of a
  message under a private key is \<open>Signed k m\<close>, and any other byte string is \<open>Bytes\<close>.
  \<open>json.dumps(..., sort_keys=True, default=str)\<close> is taken as injective, so the serialized
  text stands for the value it was made from. Times are whole seconds
  (\<open>replace(microsecond=0)\<close>).
\<close>

datatype cert =
  Cert (name: string) (issuer_name: "string option") (issuer_cert: "cert option")
       (public_key: nat) (valid_from: int) (valid_to: int) (is_ca: bool)
       (signature: "sig option")
and sig = Signed nat msg | Bytes string
and msg = ObjMsg string | CertMsg cert

text \<open>
  The payload of an \<open>Obj\<close> is any value that \<open>json.dumps\<close> accepts; it is signed and
  checked through the same serialization as a certificate, so a payload that is the dict of
  a certificate is the message \<open>CertMsg\<close> of that certificate. Any other payload is
  \<open>ObjMsg\<close> of its text.
\<close>

record obj =
  obj_payload :: msg
  obj_signature :: "sig option"

text \<open>
  The revocation list of a CA is a Python list that \<open>name_to_revoked\<close> holds by reference
  (\<open>get_revoked\<close> returns the list itself). The lists live in a store indexed by address;
  a CA and the relying party's mapping both hold the address.
\<close>

type_synonym store = "nat \<Rightarrow> cert list"

record ca =
  ca_name :: string
  ca_private_key :: nat
  ca_cert :: cert
  ca_revoked :: nat

record relaying_party =
  root_ca_lst :: "cert list"
  name_to_revoked :: "string \<rightharpoonup> nat"

definition sign_obj :: "nat \<Rightarrow> msg \<Rightarrow> sig" where
  "sign_obj private_key payload = Signed private_key payload"

definition issue_cert :: "ca \<Rightarrow> string \<Rightarrow> nat \<Rightarrow> int \<Rightarrow> int \<Rightarrow> bool \<Rightarrow> cert" where
  "issue_cert a ent_name ent_pkey vfrom vto isca =
     (let c = Cert ent_name (Some (ca_name a)) (Some (ca_cert a)) ent_pkey vfrom vto isca None
      in Cert ent_name (Some (ca_name a)) (Some (ca_cert a)) ent_pkey vfrom vto isca
           (Some (Signed (ca_private_key a) (CertMsg c))))"

text \<open>\<open>update_revoked\<close> with the clock reading \<open>cur_time\<close>; \<open>list.remove\<close> drops the first equal element.\<close>

definition update_revoked :: "int \<Rightarrow> cert list \<Rightarrow> cert list" where
  "update_revoked cur_time revoked =
     foldl (\<lambda>l c. remove1 c l) revoked (filter (\<lambda>c. valid_to c < cur_time) revoked)"

definition revoke_cert :: "ca \<Rightarrow> cert \<Rightarrow> int \<Rightarrow> store \<Rightarrow> store" where
  "revoke_cert a c cur_time h =
     h(ca_revoked a := update_revoked cur_time (h (ca_revoked a) @ [c]))"

definition get_revoked :: "ca \<Rightarrow> nat" where
  "get_revoked a = ca_revoked a"

text \<open>\<open>update_cert(cert)\<close> without a signature argument: \<open>del cert['Signature']\<close>.\<close>

definition update_cert :: "cert \<Rightarrow> cert" where
  "update_cert c =
     Cert (name c) (issuer_name c) (issuer_cert c) (public_key c) (valid_from c) (valid_to c)
       (is_ca c) None"

definition rsa_verify :: "msg \<Rightarrow> sig \<Rightarrow> nat \<Rightarrow> bool" where
  "rsa_verify m sg pub_key = (sg = Signed pub_key m)"

text \<open>
  \<open>last_cert\<close> is the signed object in the first round of the loop and a certificate
  afterwards; \<open>last_cert == obj\<close> tells them apart.
\<close>

datatype signed = TheObj obj | ACert cert

text \<open>
  The three checks of one round of the loop in \<open>verify\<close>. The second call of
  \<open>update_cert\<close> deletes the entry again when the signature is empty, a \<open>KeyError\<close>.
\<close>

definition signature_valid :: "signed \<Rightarrow> cert \<Rightarrow> error + bool" where
  "signature_valid last_cert c =
     (case last_cert of
        TheObj ob \<Rightarrow>
          (case obj_signature ob of
             None \<Rightarrow> Inl TypeError
           | Some sg \<Rightarrow> Inr (rsa_verify (obj_payload ob) sg (public_key c)))
      | ACert lc \<Rightarrow>
          (case signature lc of
             None \<Rightarrow> Inl KeyError
           | Some sg \<Rightarrow>
               if sg = Bytes [] then Inl KeyError
               else Inr (rsa_verify (CertMsg (update_cert lc)) sg (public_key c))))"

definition listed :: "relaying_party \<Rightarrow> store \<Rightarrow> string \<Rightarrow> cert \<Rightarrow> error + bool" where
  "listed rp h nm c =
     (case name_to_revoked rp nm of None \<Rightarrow> Inl KeyError | Some a \<Rightarrow> Inr (c \<in> set (h a)))"

definition is_revoked :: "relaying_party \<Rightarrow> store \<Rightarrow> cert \<Rightarrow> error + bool" where
  "is_revoked rp h c =
     (case (case issuer_name c of None \<Rightarrow> Inr False | Some nm \<Rightarrow> listed rp h nm c) of
        Inl e \<Rightarrow> Inl e
      | Inr True \<Rightarrow> Inr True
      | Inr False \<Rightarrow> if is_ca c then listed rp h (name c) c else Inr False)"

definition check_link :: "relaying_party \<Rightarrow> store \<Rightarrow> int \<Rightarrow> signed \<Rightarrow> cert \<Rightarrow> error + string option" where
  "check_link rp h cur_time last_cert c =
     (case signature_valid last_cert c of
        Inl e \<Rightarrow> Inl e
      | Inr False \<Rightarrow> Inr (Some ''Certificate chain is not valid.'')
      | Inr True \<Rightarrow>
          (case is_revoked rp h c of
             Inl e \<Rightarrow> Inl e
           | Inr True \<Rightarrow> Inr (Some ''Certificate has been revoked.'')
           | Inr False \<Rightarrow>
               if valid_from c > cur_time then Inr (Some ''Certificate is not valid yet.'')
               else if valid_to c < cur_time then Inr (Some ''Certificate has expired.'')
               else Inr None))"

text \<open>
  The loop of \<open>verify\<close>; \<open>clock k\<close> is what \<open>datetime.now()\<close> reads in round \<open>k\<close>. The
  result is the returned boolean with the line printed.
\<close>

fun verify_loop ::
  "relaying_party \<Rightarrow> store \<Rightarrow> (nat \<Rightarrow> int) \<Rightarrow> nat \<Rightarrow> signed \<Rightarrow> cert option \<Rightarrow> error + bool \<times> string"
where
  "verify_loop rp h clock k last_cert None =
     (if last_cert \<notin> ACert ` set (root_ca_lst rp) then Inr (False, ''Certificate chain is invalid.'')
      else Inr (True, ''Given object is valid.''))"
| "verify_loop rp h clock k last_cert (Some (Cert nm inm ic pk vf vt isca sg)) =
     (case check_link rp h (clock k) last_cert (Cert nm inm ic pk vf vt isca sg) of
        Inl e \<Rightarrow> Inl e
      | Inr (Some line) \<Rightarrow> Inr (False, line)
      | Inr None \<Rightarrow> verify_loop rp h clock (Suc k) (ACert (Cert nm inm ic pk vf vt isca sg)) ic)"

definition verify :: "relaying_party \<Rightarrow> store \<Rightarrow> (nat \<Rightarrow> int) \<Rightarrow> obj \<Rightarrow> cert option \<Rightarrow> error + bool \<times> string" where
  "verify rp h clock ob cert_chain = verify_loop rp h clock 0 (TheObj ob) cert_chain"

text \<open>The certificates of a chain from the leaf up, and what \<open>last_cert\<close> is in round \<open>i\<close>.\<close>

fun chain_certs :: "cert option \<Rightarrow> cert list" where
  "chain_certs None = []"
| "chain_certs (Some (Cert nm inm ic pk vf vt isca sg)) =
     Cert nm inm ic pk vf vt isca sg # chain_certs ic"

definition last_cert_at :: "obj \<Rightarrow> cert list \<Rightarrow> nat \<Rightarrow> signed" where
  "last_cert_at ob cs i = (if i = 0 then TheObj ob else ACert (cs ! (i - 1)))"

section \<open>Properties of the tree that the theorems speak about\<close>

text \<open>
  The positions of all nodes, the value of the node at a position, and its key tokens.
\<close>

definition node_ids :: "state \<Rightarrow> (nat \<times> nat) list" where
  "node_ids s =
     concat (map (\<lambda>l. map (\<lambda>j. (l, j)) [0..<length (tree_arr s ! l)]) [0..<length (tree_arr s)])"

definition node_at :: "state \<Rightarrow> nat \<times> nat \<Rightarrow> node" where
  "node_at s n = tree_arr s ! fst n ! snd n"

definition keys_at :: "state \<Rightarrow> nat \<times> nat \<Rightarrow> token list" where
  "keys_at s n = (case node_at s n of None \<Rightarrow> [] | Some b \<Rightarrow> map fst b)"

text \<open>Every node holds a dict of exactly \<open>BUCKET_SIZE\<close> entries.\<close>

definition buckets_full :: "state \<Rightarrow> bool" where
  "buckets_full s =
     (\<forall>n \<in> set (node_ids s). case node_at s n of None \<Rightarrow> False | Some b \<Rightarrow> length b = BUCKET_SIZE)"

text \<open>
  What the model assumes of Fernet: no key token occurs twice in the tree, and every key
  token in the tree was issued before the tokens still to come.
\<close>

definition tokens_fresh :: "state \<Rightarrow> bool" where
  "tokens_fresh s =
     (\<forall>n \<in> set (node_ids s).
        distinct (keys_at s n) \<and>
        (\<forall>k \<in> set (keys_at s n). iv k < next_iv s) \<and>
        (\<forall>n' \<in> set (node_ids s). n \<noteq> n' \<longrightarrow> set (keys_at s n) \<inter> set (keys_at s n') = {}))"

text \<open>The state after \<open>node.value = v\<close> for the node at position \<open>n\<close>.\<close>

definition upd_node :: "nat \<times> nat \<Rightarrow> node \<Rightarrow> state \<Rightarrow> state" where
  "upd_node n v s = s\<lparr>tree_arr := (tree_arr s)[fst n := (tree_arr s ! fst n)[snd n := v]]\<rparr>"

text \<open>
  A method satisfies \<open>triple P f Q E\<close> when, started in a state with \<open>P\<close>, it returns a
  value and a state with \<open>Q\<close> or raises an exception and leaves a state with \<open>E\<close>.
\<close>

definition triple ::
  "(state \<Rightarrow> bool) \<Rightarrow> 'a m \<Rightarrow> ('a \<Rightarrow> state \<Rightarrow> bool) \<Rightarrow> (error \<Rightarrow> state \<Rightarrow> bool) \<Rightarrow> bool" where
  "triple P f Q E =
     (\<forall>s. P s \<longrightarrow> (case f s of (Inr x, s') \<Rightarrow> Q x s' | (Inl e, s') \<Rightarrow> E e s'))"

text \<open>The decrypted entries of the node at a position.\<close>

definition entries_at :: "state \<Rightarrow> nat \<times> nat \<Rightarrow> (string \<times> string) list" where
  "entries_at s n =
     (case node_at s n of None \<Rightarrow> [] | Some b \<Rightarrow> map (\<lambda>(k, v). (decrypt k, decrypt v)) b)"

text \<open>
  \<open>preserves P f\<close>: the method \<open>f\<close> keeps \<open>P\<close>, whether it returns or raises. The next three
  say that a property does not read the draws, the token counter, or the values of the nodes.
\<close>

definition preserves :: "(state \<Rightarrow> bool) \<Rightarrow> 'a m \<Rightarrow> bool" where
  "preserves P f = triple P f (\<lambda>_. P) (\<lambda>_. P)"

named_theorems pres

definition tape_free :: "(state \<Rightarrow> bool) \<Rightarrow> bool" where
  "tape_free P = (\<forall>s t. P s \<longrightarrow> P (s\<lparr>tape := t\<rparr>))"

definition iv_free :: "(state \<Rightarrow> bool) \<Rightarrow> bool" where
  "iv_free P = (\<forall>s. P s \<longrightarrow> P (s\<lparr>next_iv := Suc (next_iv s)\<rparr>))"

definition tree_free :: "(state \<Rightarrow> bool) \<Rightarrow> bool" where
  "tree_free P = (\<forall>s n v. P s \<longrightarrow> n \<in> set (node_ids s) \<longrightarrow> P (upd_node n v s))"

text \<open>The position map holds for \<open>i\<close> the tag of the data \<open>d\<close>.\<close>

definition tagged :: "int \<Rightarrow> string \<Rightarrow> state \<Rightarrow> bool" where
  "tagged i d s = (\<exists>b. memory s i = Some (b, HMAC_SHA256 (key s) (str i @ d)))"

text \<open>
  Three runs of statements that the methods share: finding the direction of an entry in
  \<open>_push_selected_data\<close>; \<open>del node.value[key]\<close> followed by the insertion of a fresh dummy;
  and the replacement of the first dummy of a child by the pushed entry. The methods are
  shown below to be built from them.
\<close>

definition direction_of :: "token \<Rightarrow> token \<Rightarrow> nat \<Rightarrow> pyval m" where
  "direction_of k data level =
     (case decrypt data of
        [] \<Rightarrow> raise IndexError
      | c # _ \<Rightarrow>
          if c = DUM_VAL then bnd (randint 0 1) (\<lambda>r. ret (PyInt (int r)))
          else bnd (lift (py_int (decrypt k))) (\<lambda>i.
               bnd get (\<lambda>s.
               case memory s i of
                 None \<Rightarrow> raise KeyError
               | Some (bits, t) \<Rightarrow>
                   if level < length bits then ret (PyStr [bits ! level])
                   else raise IndexError)))"

definition replace_by_dummy :: "token \<Rightarrow> bucket \<Rightarrow> nat \<times> nat \<Rightarrow> unit m" where
  "replace_by_dummy k d n =
     bnd (dict_del k d) (\<lambda>d1.
     bnd (set_node_value n (Some d1)) (\<lambda>_.
     bnd (add_dummy d1) (\<lambda>d2.
     set_node_value n (Some d2))))"

definition insert_into :: "nat \<times> nat \<Rightarrow> token \<Rightarrow> token \<Rightarrow> unit m" where
  "insert_into nn k data =
     bnd (node_dict nn) (\<lambda>nd.
     bnd (lift (find_dummy nd)) (\<lambda>f.
     case f of
       None \<Rightarrow> ret ()
     | Some cur_key \<Rightarrow>
         bnd (dict_del cur_key nd) (\<lambda>nd1.
         set_node_value nn (Some (dict_set k data nd1)))))"

text \<open>
  \<open>keeps P f\<close>: the method \<open>f\<close> keeps \<open>P\<close> when it returns and when it raises an exception
  of the program.
\<close>

definition keeps :: "(state \<Rightarrow> bool) \<Rightarrow> 'a m \<Rightarrow> bool" where
  "keeps P f = triple P f (\<lambda>_. P) (\<lambda>e s. e \<noteq> TapeExhausted \<longrightarrow> P s)"

named_theorems keep

text \<open>No node holds the key token \<open>k\<close>.\<close>

definition absent :: "token \<Rightarrow> state \<Rightarrow> bool" where
  "absent k s = (\<forall>n \<in> set (node_ids s). k \<notin> set (keys_at s n))"

text \<open>Both invariants of the buckets together, and a single full bucket.\<close>

definition full_fresh :: "state \<Rightarrow> bool" where
  "full_fresh s = (buckets_full s \<and> tokens_fresh s)"

definition full_at :: "state \<Rightarrow> nat \<times> nat \<Rightarrow> bool" where
  "full_at s n = (case node_at s n of None \<Rightarrow> False | Some b \<Rightarrow> length b = BUCKET_SIZE)"

text \<open>While the buckets are filled: the tokens are fresh, the tree has the levels \<open>sh\<close>, and the nodes in \<open>N\<close> are full.\<close>

definition filling :: "nat list \<Rightarrow> (nat \<times> nat) set \<Rightarrow> state \<Rightarrow> bool" where
  "filling sh N s = (tokens_fresh s \<and> map length (tree_arr s) = sh \<and> (\<forall>m \<in> N. full_at s m))"

text \<open>
  The statements of \<open>store_data\<close> that put the new entry in place of the dummy found in the
  root and re-encrypt the root; and what makes \<open>store_data\<close> reach them: the scan of the
  root finds a dummy.
\<close>

definition root_insert :: "token \<Rightarrow> bucket \<Rightarrow> string \<Rightarrow> string \<Rightarrow> unit m" where
  "root_insert k d pk pv =
     bnd (dict_del k d) (\<lambda>d1.
     bnd (set_node_value get_root (Some d1)) (\<lambda>_.
     bnd (encrypt pv) (\<lambda>enc_val.
     bnd (encrypt pk) (\<lambda>enc_key.
     bnd (set_node_value get_root (Some (dict_set enc_key enc_val d1))) (\<lambda>_.
     encrypt_node get_root)))))"

definition root_has_dummy :: "state \<Rightarrow> bool" where
  "root_has_dummy s =
     (get_root \<in> set (node_ids s) \<and>
      (case node_at s get_root of
         None \<Rightarrow> False
       | Some d \<Rightarrow> (case find_dummy d of Inr (Some k) \<Rightarrow> True | _ \<Rightarrow> False)))"

text \<open>
  The decrypted entries of the whole tree, and the number of entries whose key is the text
  of the id \<open>i\<close>: what \<open>retrieve_data\<close> and \<open>delete_data\<close> look for.
\<close>

definition all_entries :: "state \<Rightarrow> (string \<times> string) list" where
  "all_entries s = concat (map (entries_at s) (node_ids s))"

definition entries_for :: "state \<Rightarrow> int \<Rightarrow> nat" where
  "entries_for s i = length (filter (\<lambda>e. fst e = str i) (all_entries s))"

text \<open>
  The nodes whose value differs between two states of the server: the nodes that an
  operation leading from the first to the second has rewritten.
\<close>

definition touched :: "state \<Rightarrow> state \<Rightarrow> (nat \<times> nat) list" where
  "touched s s' = filter (\<lambda>n. node_at s' n \<noteq> node_at s n) (node_ids s)"

text \<open>
  The root bucket holds only tokens issued from number \<open>N\<close> on.
\<close>

definition root_new :: "nat \<Rightarrow> state \<Rightarrow> bool" where
  "root_new N s =
     (get_root \<in> set (node_ids s) \<and> N \<le> next_iv s \<and>
      (case node_at s get_root of
         None \<Rightarrow> False
       | Some b \<Rightarrow> b \<noteq> [] \<and> (\<forall>k \<in> fst ` set b. N \<le> iv k)))"

section \<open>Concrete servers\<close>

text \<open>
  The states that \<open>Server(7)\<close>, \<open>Server(3)\<close> and \<open>Server(1)\<close> build, for a client with key 7, and lists of
  draws for the runs evaluated below: \<open>draws_7\<close> fills the seven buckets, draws leaf 8
  (\<open>1000\<close>) and lets the push-down pass pick the stored entry on every level.
\<close>

definition server_7 :: "nat list \<Rightarrow> state" where
  "server_7 draws =
     \<lparr>memory = Map.empty, key = 7, height = 2,
      tree_arr = [[None], [None, None], [None, None, None, None]], tape = draws, next_iv = 0\<rparr>"

definition server_1 :: "nat list \<Rightarrow> state" where
  "server_1 draws =
     \<lparr>memory = Map.empty, key = 7, height = 0, tree_arr = [[None]], tape = draws, next_iv = 0\<rparr>"

definition server_3 :: "nat list \<Rightarrow> state" where
  "server_3 draws =
     \<lparr>memory = Map.empty, key = 7, height = 1,
      tree_arr = [[None], [None, None]], tape = draws, next_iv = 0\<rparr>"

definition zero_one :: "nat \<Rightarrow> nat list" where
  "zero_one n = concat (replicate n [0, 1])"

text \<open>A run on \<open>Server(3)\<close>: the buckets are filled, then id 1 is stored, retrieved and deleted.\<close>

definition run_3_filled :: state where
  "run_3_filled = snd (fill_server_with_dummies (server_3 (zero_one 40)))"

definition run_3_stored :: state where
  "run_3_stored = snd (store_data 1 ''aaaa'' run_3_filled)"

definition run_3_retrieved :: state where
  "run_3_retrieved = snd (retrieve_data 1 run_3_stored)"

definition run_3_deleted :: state where
  "run_3_deleted = snd (delete_data 1 run_3_retrieved)"

definition draws_7 :: "nat list" where
  "draws_7 =
     replicate 84 0 @ [0] @ [3, 0, 1, 1, 1, 0, 2, 2, 2] @
     [1, 0, 3, 0, 3, 3, 3, 1, 4, 4, 4, 0, 1, 1, 5, 5, 5, 0, 6, 6, 6] @ zero_one 20"

text \<open>
  What may happen to the revocation lists between a revocation and a later \<open>verify\<close>:
  further calls of \<open>revoke_cert\<close> and of \<open>update_revoked\<close> on any CA, each with the time
  it reads from the clock.
\<close>

datatype ca_call = Revoke_cert ca cert int | Update_revoked ca int

fun call_time :: "ca_call \<Rightarrow> int" where
  "call_time (Revoke_cert a c t) = t"
| "call_time (Update_revoked a t) = t"

fun run_call :: "ca_call \<Rightarrow> store \<Rightarrow> store" where
  "run_call (Revoke_cert a c t) h = revoke_cert a c t h"
| "run_call (Update_revoked a t) h = h(ca_revoked a := update_revoked t (h (ca_revoked a)))"

definition run_calls :: "ca_call list \<Rightarrow> store \<Rightarrow> store" where
  "run_calls calls h = foldl (\<lambda>h e. run_call e h) h calls"

section \<open>The scenario of \<open>main()\<close> in PKI.py\<close>

text \<open>
  The entities of \<open>main()\<close>, with numbers for the key pairs of \<open>rsa.newkeys\<close> and seconds
  for the times; \<open>instant_cert\<close> and \<open>lapsed_cert\<close> are two further certificates used as
  inputs below.
\<close>

definition main_start :: int where
  "main_start = 1000"

definition main_end :: int where
  "main_end = main_start + 315360000"

definition uni_ca :: ca where
  "uni_ca = \<lparr>ca_name = ''UniverseCA'', ca_private_key = 1,
             ca_cert = Cert ''UniverseCA'' None None 1 main_start main_end True None,
             ca_revoked = 0\<rparr>"

definition huji_cert :: cert where
  "huji_cert = issue_cert uni_ca ''HUJI'' 2 main_start main_end False"

definition obj1 :: obj where
  "obj1 = \<lparr>obj_payload = ObjMsg ''{Name: Dor, Rule: CEO}'',
           obj_signature = Some (sign_obj 2 (ObjMsg ''{Name: Dor, Rule: CEO}''))\<rparr>"

definition expired_cert :: cert where
  "expired_cert = issue_cert uni_ca ''Expired'' 5 main_start (main_start - 1) False"

definition obj5 :: obj where
  "obj5 = \<lparr>obj_payload = ObjMsg ''{Name: Miki, Rule: Former CEO}'',
           obj_signature = Some (sign_obj 5 (ObjMsg ''{Name: Miki, Rule: Former CEO}''))\<rparr>"

definition intel :: ca where
  "intel = \<lparr>ca_name = ''Intel'', ca_private_key = 3,
            ca_cert = issue_cert uni_ca ''Intel'' 3 main_start main_end True,
            ca_revoked = 1\<rparr>"

definition mobileye_cert :: cert where
  "mobileye_cert = issue_cert intel ''Mobileye'' 4 main_start main_end False"

definition obj2 :: obj where
  "obj2 = \<lparr>obj_payload = ObjMsg ''{Name: Barak, Rule: CTO}'',
           obj_signature = Some (sign_obj 4 (ObjMsg ''{Name: Barak, Rule: CTO}''))\<rparr>"

definition instant_cert :: cert where
  "instant_cert = issue_cert uni_ca ''HUJI'' 2 main_start main_start False"

definition lapsed_cert :: cert where
  "lapsed_cert = issue_cert intel ''Mobileye'' 4 main_start (main_start - 1) False"

definition main_rp :: relaying_party where
  "main_rp = \<lparr>root_ca_lst = [ca_cert uni_ca],
              name_to_revoked = [ca_name uni_ca \<mapsto> get_revoked uni_ca,
                                 ca_name intel \<mapsto> get_revoked intel]\<rparr>"

definition main_store :: store where
  "main_store = (\<lambda>a. [])"

section \<open>Rules for triples\<close>

lemma tripleI:
  "(\<And>s r s'. P s \<Longrightarrow> f s = (r, s') \<Longrightarrow> (case r of Inr x \<Rightarrow> Q x s' | Inl e \<Rightarrow> E e s')) \<Longrightarrow> triple P f Q E"
  by (auto simp: triple_def split: prod.splits sum.splits)

lemma tripleD:
  "triple P f Q E \<Longrightarrow> P s \<Longrightarrow> f s = (r, s') \<Longrightarrow> (case r of Inr x \<Rightarrow> Q x s' | Inl e \<Rightarrow> E e s')"
  by (auto simp: triple_def split: prod.splits sum.splits)

lemma triple_bnd:
  "triple P f R E \<Longrightarrow> (\<And>x. triple (R x) (g x) Q E) \<Longrightarrow> triple P (bnd f g) Q E"
  unfolding triple_def bnd_def
  by (auto split: prod.splits sum.splits) (metis (mono_tags, lifting) old.prod.case old.sum.simps(5,6))+

lemma triple_weaken:
  "triple P' f Q' E' \<Longrightarrow> (\<And>s. P s \<Longrightarrow> P' s) \<Longrightarrow> (\<And>x s. Q' x s \<Longrightarrow> Q x s) \<Longrightarrow>
   (\<And>e s. E' e s \<Longrightarrow> E e s) \<Longrightarrow> triple P f Q E"
  unfolding triple_def
  by (auto split: prod.splits sum.splits) (metis (mono_tags, lifting) old.prod.case old.sum.simps(5,6))+

lemma triple_pre: "triple P' f Q E \<Longrightarrow> (\<And>s. P s \<Longrightarrow> P' s) \<Longrightarrow> triple P f Q E"
  by (auto simp: triple_def)

lemma triple_ret: "(\<And>s. P s \<Longrightarrow> Q x s) \<Longrightarrow> triple P (ret x) Q E"
  by (simp add: triple_def ret_def)

lemma triple_raise: "(\<And>s. P s \<Longrightarrow> E e s) \<Longrightarrow> triple P (raise e) Q E"
  by (simp add: triple_def raise_def)

lemma triple_get_bnd:
  "(\<And>s0. triple (\<lambda>s. P s \<and> s = s0) (g s0) Q E) \<Longrightarrow> triple P (bnd get g) Q E"
  by (auto simp: triple_def bnd_def get_def)

lemma triple_for_each:
  assumes "\<And>x. x \<in> set xs \<Longrightarrow> triple I (body x) (\<lambda>_. I) E"
  shows "triple I (for_each xs body) (\<lambda>_. I) E"
  using assms
proof (induction xs)
  case Nil
  show ?case by (simp add: triple_ret)
next
  case (Cons x xs)
  have 1: "triple I (body x) (\<lambda>_. I) E" using Cons.prems by simp
  have 2: "triple I (for_each xs body) (\<lambda>_. I) E" using Cons by simp
  show ?case by (simp, rule triple_bnd[OF 1]) (rule 2)
qed

section \<open>Nodes and their values\<close>

lemma set_node_ids:
  "set (node_ids s) = {n. fst n < length (tree_arr s) \<and> snd n < length (tree_arr s ! fst n)}"
  by (auto simp: node_ids_def)

lemma node_value_eq:
  "node_value n s = (if n \<in> set (node_ids s) then (Inr (node_at s n), s) else (Inl IndexError, s))"
  by (simp add: node_value_def set_node_ids node_at_def)

lemma set_node_value_eq:
  "set_node_value n v s =
     (if n \<in> set (node_ids s) then (Inr (), upd_node n v s) else (Inl IndexError, s))"
  by (simp add: set_node_value_def set_node_ids upd_node_def)

lemma upd_node_fields [simp]:
  "memory (upd_node n v s) = memory s" "key (upd_node n v s) = key s"
  "height (upd_node n v s) = height s" "tape (upd_node n v s) = tape s"
  "next_iv (upd_node n v s) = next_iv s"
  by (simp_all add: upd_node_def)

lemma node_ids_upd [simp]: "node_ids (upd_node n v s) = node_ids s"
proof -
  have "length ((tree_arr s)[fst n := (tree_arr s ! fst n)[snd n := v]] ! l) = length (tree_arr s ! l)" for l
    by (cases "l = fst n"; cases "fst n < length (tree_arr s)") (simp_all add: list_update_beyond)
  then show ?thesis by (simp add: node_ids_def upd_node_def)
qed

lemma node_at_upd:
  "n \<in> set (node_ids s) \<Longrightarrow> node_at (upd_node n v s) n' = (if n' = n then v else node_at s n')"
  by (cases n; cases n') (auto simp: node_at_def upd_node_def set_node_ids nth_list_update)

lemma node_ids_other [simp]:
  "node_ids (s\<lparr>tape := t\<rparr>) = node_ids s" "node_ids (s\<lparr>next_iv := m\<rparr>) = node_ids s"
  "node_ids (s\<lparr>memory := mem\<rparr>) = node_ids s"
  by (simp_all add: node_ids_def)

lemma node_at_other [simp]:
  "node_at (s\<lparr>tape := t\<rparr>) = node_at s" "node_at (s\<lparr>next_iv := m\<rparr>) = node_at s"
  "node_at (s\<lparr>memory := mem\<rparr>) = node_at s"
  by (simp_all add: node_at_def fun_eq_iff)

lemma keys_at_other [simp]:
  "keys_at (s\<lparr>tape := t\<rparr>) = keys_at s" "keys_at (s\<lparr>next_iv := m\<rparr>) = keys_at s"
  "keys_at (s\<lparr>memory := mem\<rparr>) = keys_at s"
  by (simp_all add: keys_at_def fun_eq_iff)

lemma keys_at_upd:
  "n \<in> set (node_ids s) \<Longrightarrow>
   keys_at (upd_node n v s) n' =
     (if n' = n then (case v of None \<Rightarrow> [] | Some b \<Rightarrow> map fst b) else keys_at s n')"
  by (simp add: keys_at_def node_at_upd)

section \<open>Invariants kept by every step\<close>

lemma preservesD: "preserves P f \<Longrightarrow> P s \<Longrightarrow> f s = (r, s') \<Longrightarrow> P s'"
  unfolding preserves_def by (drule (2) tripleD) (simp split: sum.splits)

lemma pres_ret [pres]: "preserves P (ret x)"
  by (simp add: preserves_def triple_ret)

lemma pres_raise [pres]: "preserves P (raise e)"
  by (simp add: preserves_def triple_raise)

lemma pres_bnd [pres]: "preserves P f \<Longrightarrow> (\<And>x. preserves P (g x)) \<Longrightarrow> preserves P (bnd f g)"
  unfolding preserves_def by (rule triple_bnd)

lemma pres_get_bnd [pres]: "(\<And>s0. preserves P (g s0)) \<Longrightarrow> preserves P (bnd get g)"
  unfolding preserves_def by (rule triple_get_bnd, rule triple_pre, assumption, simp)

lemma pres_if [pres]: "(b \<Longrightarrow> preserves P f) \<Longrightarrow> (\<not> b \<Longrightarrow> preserves P g) \<Longrightarrow> preserves P (if b then f else g)"
  by simp

lemma pres_case_option [pres]:
  "(x = None \<Longrightarrow> preserves P f) \<Longrightarrow> (\<And>y. x = Some y \<Longrightarrow> preserves P (g y)) \<Longrightarrow>
   preserves P (case x of None \<Rightarrow> f | Some y \<Rightarrow> g y)"
  by (cases x) simp_all

lemma pres_case_list [pres]:
  "(x = [] \<Longrightarrow> preserves P f) \<Longrightarrow> (\<And>y ys. x = y # ys \<Longrightarrow> preserves P (g y ys)) \<Longrightarrow>
   preserves P (case x of [] \<Rightarrow> f | y # ys \<Rightarrow> g y ys)"
  by (cases x) simp_all

lemma pres_case_prod [pres]:
  "(\<And>a b. x = (a, b) \<Longrightarrow> preserves P (f a b)) \<Longrightarrow> preserves P (case x of (a, b) \<Rightarrow> f a b)"
  by (cases x) simp_all

lemma pres_lift [pres]: "preserves P (lift r)"
  by (cases r) (simp_all add: lift_def pres)

lemma pres_for_each [pres]: "(\<And>x. preserves P (body x)) \<Longrightarrow> preserves P (for_each xs body)"
  unfolding preserves_def by (rule triple_for_each)

text \<open>Steps that leave the state as it is.\<close>

lemma pres_pure:
  "(\<And>s. snd (f s) = s) \<Longrightarrow> preserves P f"
  unfolding preserves_def triple_def
  by (auto split: prod.splits sum.splits) (metis snd_conv)+

lemma pres_node_value [pres]: "preserves P (node_value n)"
  by (rule pres_pure) (simp add: node_value_def)

lemma pres_node_dict [pres]: "preserves P (node_dict n)"
  unfolding node_dict_def by (intro pres)

lemma pres_dict_del [pres]: "preserves P (dict_del k d)"
  unfolding dict_del_def by (intro pres)

lemma pres_dict_get [pres]: "preserves P (dict_get k d)"
  unfolding dict_get_def by (intro pres)

lemma pres_list_index [pres]: "preserves P (list_index xs i)"
  unfolding list_index_def by (intro pres)

lemma pres_node_keys [pres]: "preserves P (node_keys n)"
  unfolding node_keys_def by (intro pres)

lemma pres_num_nodes [pres]: "preserves P (num_nodes_in_level i)"
  by (rule pres_pure) (simp add: num_nodes_in_level_def)

lemma pres_get_node [pres]: "preserves P (get_node_in_level i j)"
  by (rule pres_pure) (simp add: get_node_in_level_def)

lemma pres_randint [pres]: "tape_free P \<Longrightarrow> preserves P (randint a b)"
  unfolding preserves_def triple_def tape_free_def randint_def
  by (auto split: list.splits)

lemma draw_until_differs_cases:
  "draw_until_differs a b r1 t = (r, t') \<Longrightarrow>
   (r = Inl TapeExhausted \<and> t' = []) \<or>
   (\<exists>x. r = Inr x \<and> x \<noteq> r1 \<and> (0 \<le> a \<longrightarrow> a \<le> b \<longrightarrow> a \<le> int x \<and> int x \<le> b))"
proof (induction t)
  case Nil
  then show ?case by simp
next
  case (Cons y t)
  show ?case
  proof (cases "r1 = nat (a + int y mod (b - a + 1))")
    case True
    with Cons show ?thesis by simp
  next
    case False
    with Cons.prems have r: "r = Inr (nat (a + int y mod (b - a + 1)))" by simp
    have "a \<le> b \<Longrightarrow> 0 \<le> int y mod (b - a + 1) \<and> int y mod (b - a + 1) < b - a + 1"
      using pos_mod_bound[of "b - a + 1" "int y"] by simp
    then show ?thesis using r False by auto
  qed
qed

lemma pres_randint_other [pres]: "tape_free P \<Longrightarrow> preserves P (randint_other a b r1)"
  unfolding preserves_def triple_def tape_free_def randint_other_def
  by (auto split: prod.splits sum.splits)

lemma pres_random_choice [pres]: "tape_free P \<Longrightarrow> preserves P (random_choice l)"
  unfolding preserves_def triple_def tape_free_def random_choice_def
  by (auto split: list.splits)

lemma pres_get_random_string [pres]: "tape_free P \<Longrightarrow> preserves P (get_random_string n)"
  by (induction n) (auto intro!: pres)

lemma pres_encrypt [pres]: "iv_free P \<Longrightarrow> preserves P (encrypt p)"
  unfolding preserves_def triple_def iv_free_def encrypt_def by auto

lemma pres_set_node_value [pres]: "tree_free P \<Longrightarrow> preserves P (set_node_value n v)"
  unfolding preserves_def triple_def tree_free_def by (cases n) (auto simp: set_node_value_eq)

lemma pres_add_dummy [pres]: "tape_free P \<Longrightarrow> iv_free P \<Longrightarrow> preserves P (add_dummy d)"
  unfolding add_dummy_def by (intro pres)

lemma pres_fill_node [pres]: "tape_free P \<Longrightarrow> iv_free P \<Longrightarrow> tree_free P \<Longrightarrow> preserves P (fill_node n)"
  unfolding fill_node_def by (intro pres)

lemma pres_fill_server [pres]:
  "tape_free P \<Longrightarrow> iv_free P \<Longrightarrow> tree_free P \<Longrightarrow> preserves P fill_server_with_dummies"
  unfolding fill_server_with_dummies_def by (intro pres)

lemma pres_reencrypt [pres]: "iv_free P \<Longrightarrow> preserves P (reencrypt d nd)"
  by (induction d nd rule: reencrypt.induct) (auto intro!: pres)

lemma pres_encrypt_node [pres]: "iv_free P \<Longrightarrow> tree_free P \<Longrightarrow> preserves P (encrypt_node n)"
  unfolding encrypt_node_def by (intro pres)

lemma pres_push_selected_data [pres]:
  "tape_free P \<Longrightarrow> iv_free P \<Longrightarrow> tree_free P \<Longrightarrow> preserves P (push_selected_data k data prev level)"
  unfolding push_selected_data_def Let_def by (intro pres)

lemma pres_rand_and_push [pres]:
  "tape_free P \<Longrightarrow> iv_free P \<Longrightarrow> tree_free P \<Longrightarrow> preserves P (rand_and_push n level)"
  unfolding rand_and_push_def by (intro pres)

lemma pres_push_levels [pres]:
  "tape_free P \<Longrightarrow> iv_free P \<Longrightarrow> tree_free P \<Longrightarrow> preserves P (push_levels ls)"
  by (induction ls) (auto intro!: pres)

lemma pres_push_down [pres]:
  "tape_free P \<Longrightarrow> iv_free P \<Longrightarrow> tree_free P \<Longrightarrow> preserves P push_down"
  unfolding push_down_def by (intro pres)

lemma pres_delete_walk [pres]:
  "tape_free P \<Longrightarrow> iv_free P \<Longrightarrow> tree_free P \<Longrightarrow> preserves P (delete_walk i path ls cur)"
  by (induction ls arbitrary: cur) (auto intro!: pres)

lemma pres_delete_data [pres]:
  "tape_free P \<Longrightarrow> iv_free P \<Longrightarrow> tree_free P \<Longrightarrow> preserves P (delete_data i)"
  unfolding delete_data_def by (intro pres)

section \<open>PathORAM.py: the shape of the tree\<close>

lemma build_step:
  "build_tree_arr (Suc h) arr =
     (let a = build_tree_arr h arr in a @ [concat (map (\<lambda>cur_node. [None, None]) (a ! h))])"
  by (simp add: build_tree_arr_def Let_def)

lemma length_concat_pairs: "length (concat (map (\<lambda>cur_node. [a, b]) xs)) = 2 * length xs"
  by (induction xs) auto

lemma build_tree_arr_shape:
  "length (build_tree_arr h [[None]]) = h + 1 \<and>
   (\<forall>l \<le> h. length (build_tree_arr h [[None]] ! l) = 2 ^ l)"
proof (induction h)
  case 0
  show ?case by (simp add: build_tree_arr_def)
next
  case (Suc h)
  let ?a = "build_tree_arr h [[None]]"
  have len: "length ?a = h + 1" using Suc by simp
  have lv: "\<And>l. l \<le> h \<Longrightarrow> length (?a ! l) = 2 ^ l" using Suc by simp
  have step: "build_tree_arr (Suc h) [[None]] = ?a @ [concat (map (\<lambda>cur_node. [None, None]) (?a ! h))]"
    by (simp add: build_step Let_def)
  show ?case
  proof (intro conjI allI impI)
    show "length (build_tree_arr (Suc h) [[None]]) = Suc h + 1"
      by (simp add: step len)
  next
    fix l assume l: "l \<le> Suc h"
    show "length (build_tree_arr (Suc h) [[None]] ! l) = 2 ^ l"
    proof (cases "l \<le> h")
      case True
      then show ?thesis by (simp add: step nth_append len lv)
    next
      case False
      with l have "l = Suc h" by simp
      then show ?thesis by (simp add: step nth_append len length_concat_pairs lv)
    qed
  qed
qed

lemma sum_levels:
  "length xss = h + 1 \<Longrightarrow> (\<forall>l \<le> h. length (xss ! l) = 2 ^ l) \<Longrightarrow>
   length (concat xss) + 1 = 2 ^ (h + 1)"
proof (induction h arbitrary: xss)
  case 0
  then obtain x where "xss = [x]" by (cases xss) auto
  with 0 show ?case by simp
next
  case (Suc h)
  then have ne: "xss \<noteq> []" by auto
  have split: "xss = butlast xss @ [last xss]" using ne by simp
  have lb: "length (butlast xss) = h + 1" using Suc.prems by simp
  have "\<forall>l \<le> h. length (butlast xss ! l) = 2 ^ l"
    using Suc.prems lb by (simp add: nth_butlast)
  from Suc.IH[OF lb this] have ih: "length (concat (butlast xss)) + 1 = 2 ^ (h + 1)" .
  have "last xss = xss ! Suc h" using Suc.prems ne by (simp add: last_conv_nth)
  then have ll: "length (last xss) = 2 ^ Suc h" using Suc.prems by simp
  have "length (concat xss) = length (concat (butlast xss)) + length (last xss)"
    by (subst split) simp
  with ih ll show ?case by simp
qed

lemma PerfectTree_counts:
  assumes "PerfectTree n = Inr t"
  shows "length (concat (pt_tree_arr t)) = 2 ^ (pt_height t + 1) - 1 \<and>
         length (leaves t) = 2 ^ pt_height t"
proof -
  from assms have arr: "pt_tree_arr t = build_tree_arr (pt_height t) [[None]]"
    by (auto simp: PerfectTree_def Let_def split: sum.splits if_splits)
  let ?h = "pt_height t"
  have sh: "length (pt_tree_arr t) = ?h + 1" "\<forall>l \<le> ?h. length (pt_tree_arr t ! l) = 2 ^ l"
    using build_tree_arr_shape[of ?h] arr by simp_all
  have "length (concat (pt_tree_arr t)) + 1 = 2 ^ (?h + 1)"
    using sum_levels[OF sh] .
  moreover have "leaves t = pt_tree_arr t ! ?h"
  proof -
    have "pt_tree_arr t \<noteq> []" using sh(1) by auto
    then show ?thesis using sh(1) by (simp add: leaves_def last_conv_nth)
  qed
  ultimately show ?thesis using sh(2) by simp
qed

lemma PerfectTree_returns:
  assumes "1 \<le> n"
  shows "\<exists>t. PerfectTree n = Inr t"
  using assms by (auto simp: PerfectTree_def fix_size_def Let_def)

lemma log2_5: "\<lfloor>log 2 (5::real)\<rfloor> = 2" "\<lceil>log 2 (5::real)\<rceil> = 3"
  using floor_log_nat_eq_if[of 2 2 5] ceiling_log_nat_eq_if[of 2 2 5] by simp_all

lemma six_not_power: "\<not> is_power_of_two 6"
proof
  assume "is_power_of_two 6"
  then obtain k :: nat where k: "(6::int) = 2 ^ k" by (auto simp: is_power_of_two_def)
  show False
  proof (cases "k \<le> 2")
    case True
    then have "k = 0 \<or> k = 1 \<or> k = 2" by auto
    with k show False by auto
  next
    case False
    then have "(2::int) ^ 3 \<le> 2 ^ k" by (intro power_increasing) auto
    with k show False by simp
  qed
qed

text \<open>
  Claim C8. For every \<open>requested_size \<ge> 1\<close> the \<open>size\<close> field of \<open>PerfectTree\<close> plus one is
  said to be a power of two, and the tree to have \<open>2^(L+1) - 1\<close> nodes and \<open>2^L\<close> leaves for
  its height \<open>L\<close>. The counts hold for every tree that is built (\<open>PerfectTree_counts\<close>
  above), but \<open>fix_size\<close> adds one where it should round up: \<open>PerfectTree(4)\<close> has
  \<open>size = 5\<close>, and 6 is not a power of two, while the tree built has height 2, 7 nodes and
  4 leaves.
\<close>

theorem PerfectTree_size_not_canonical:
  "\<exists>t. PerfectTree 4 = Inr t \<and> pt_size t = 5 \<and> \<not> is_power_of_two (pt_size t + 1) \<and>
       pt_height t = 2 \<and> length (concat (pt_tree_arr t)) = 7 \<and> length (leaves t) = 4"
proof -
  have "PerfectTree 4 =
     Inr \<lparr>pt_size = 5, pt_height = 2, pt_tree_arr = build_tree_arr 2 [[None]]\<rparr>"
    by (simp add: PerfectTree_def fix_size_def log2_5)
  moreover have "build_tree_arr 2 [[None]] = [[None], [None, None], [None, None, None, None]]"
    by (simp add: build_tree_arr_def numeral_2_eq_2)
  ultimately show ?thesis
    using six_not_power by (simp add: leaves_def)
qed

lemma triple_any: "triple P f (\<lambda>_ _. True) (\<lambda>_ _. True)"
  by (auto simp: triple_def split: prod.splits sum.splits)

lemma preserves_triple: "preserves P f \<Longrightarrow> triple P f (\<lambda>_. P) (\<lambda>_ _. True)"
  unfolding preserves_def by (erule triple_weaken) auto

lemma triple_modify: "(\<And>s. P s \<Longrightarrow> Q () (f s)) \<Longrightarrow> triple P (modify f) Q E"
  by (simp add: triple_def modify_def)

lemma triple_if:
  "(b \<Longrightarrow> triple P f Q E) \<Longrightarrow> (\<not> b \<Longrightarrow> triple P g Q E) \<Longrightarrow> triple P (if b then f else g) Q E"
  by simp

lemma triple_false: "(\<And>s. \<not> P s) \<Longrightarrow> triple P f Q E"
  by (simp add: triple_def)

section \<open>The tag that retrieve_data compares with\<close>

lemma tagged_free: "tape_free (tagged i d)" "iv_free (tagged i d)" "tree_free (tagged i d)"
  by (simp_all add: tape_free_def iv_free_def tree_free_def tagged_def)

lemma store_data_tagged:
  "triple (\<lambda>s. memory s i = None) (store_data i d) (\<lambda>r s. r = None \<and> tagged i d s) (\<lambda>_ _. True)"
  unfolding store_data_def
proof (rule triple_get_bnd)
  fix s0
  let ?P = "tagged i d"
  note fr = tagged_free[of i d]
  show "triple (\<lambda>s. memory s i = None \<and> s = s0)
     (if memory s0 i \<noteq> None then ret (Some ''ID already exists. Please delete it first'')
      else bnd (node_value get_root) (\<lambda>v.
       bnd (if v = None then fill_server_with_dummies else ret ()) (\<lambda>_.
       bnd get (\<lambda>s1.
       bnd (randint (leaf_min s1) (leaf_max s1)) (\<lambda>leaf.
       bnd (modify (\<lambda>s. s\<lparr>memory := (memory s)(i \<mapsto>
              (bin leaf, HMAC_SHA256 (key s) (str i @ d)))\<rparr>)) (\<lambda>_.
       bnd (node_dict get_root) (\<lambda>d'.
       bnd (lift (find_dummy d')) (\<lambda>f.
       bnd (case f of
              None \<Rightarrow> ret ()
            | Some k \<Rightarrow>
                bnd (dict_del k d') (\<lambda>d1.
                bnd (set_node_value get_root (Some d1)) (\<lambda>_.
                bnd (encrypt (CHR ''1'' # d)) (\<lambda>enc_val.
                bnd (encrypt (str i)) (\<lambda>enc_key.
                bnd (set_node_value get_root (Some (dict_set enc_key enc_val d1))) (\<lambda>_.
                encrypt_node get_root)))))) (\<lambda>_.
       bnd push_down (\<lambda>_.
       ret None))))))))))
     (\<lambda>r s. r = None \<and> tagged i d s) (\<lambda>_ _. True)"
  proof (cases "memory s0 i \<noteq> None")
    case True
    then show ?thesis by (intro triple_false) auto
  next
    case False
    have tail: "triple ?P
       (bnd (node_dict get_root) (\<lambda>d'.
       bnd (lift (find_dummy d')) (\<lambda>f.
       bnd (case f of
              None \<Rightarrow> ret ()
            | Some k \<Rightarrow>
                bnd (dict_del k d') (\<lambda>d1.
                bnd (set_node_value get_root (Some d1)) (\<lambda>_.
                bnd (encrypt (CHR ''1'' # d)) (\<lambda>enc_val.
                bnd (encrypt (str i)) (\<lambda>enc_key.
                bnd (set_node_value get_root (Some (dict_set enc_key enc_val d1))) (\<lambda>_.
                encrypt_node get_root)))))) (\<lambda>_.
       bnd push_down (\<lambda>_.
       ret None)))))
       (\<lambda>r s. r = None \<and> ?P s) (\<lambda>_ _. True)"
      apply (rule triple_bnd[where R = "\<lambda>_. ?P"])
       apply (rule preserves_triple, intro pres)
      apply (rule triple_bnd[where R = "\<lambda>_. ?P"])
       apply (rule preserves_triple, intro pres)
      apply (rule triple_bnd[where R = "\<lambda>_. ?P"])
       apply (rule preserves_triple, intro pres fr)
      apply (rule triple_bnd[where R = "\<lambda>_. ?P"])
       apply (rule preserves_triple, intro pres fr)
      apply (rule triple_ret)
      apply simp
      done
    from False show ?thesis
      apply simp
      apply (rule triple_bnd[where R = "\<lambda>_ _. True"], rule triple_weaken[OF triple_any], simp, simp, simp)
      apply (rule triple_bnd[where R = "\<lambda>_ _. True"], rule triple_weaken[OF triple_any], simp, simp, simp)
      apply (rule triple_get_bnd)
      apply (rule triple_bnd[where R = "\<lambda>_ _. True"], rule triple_weaken[OF triple_any], simp, simp, simp)
      apply (rule triple_bnd[where R = "\<lambda>_. ?P"])
       apply (rule triple_modify, simp add: tagged_def)
      apply (rule tail)
      done
  qed
qed

lemma retrieve_walk_tagged:
  "triple (\<lambda>_. True) (retrieve_walk i path ls cur)
     (\<lambda>r s. \<forall>d. r = Some d \<longrightarrow> tagged i d s) (\<lambda>_ _. True)"
proof (induction ls arbitrary: cur)
  case Nil
  show ?case by (simp add: triple_ret)
next
  case (Cons level ls)
  show ?case
  proof (cases cur)
    case None
    then show ?thesis by (simp add: triple_raise)
  next
    case (Some n)
    show ?thesis
      unfolding Some retrieve_walk.simps option.case
    proof (rule triple_bnd[where R = "\<lambda>_ _. True"])
      show "triple (\<lambda>_. True) (node_dict n) (\<lambda>_ _. True) (\<lambda>_ _. True)" by (rule triple_any)
    next
      fix d
      show "triple (\<lambda>_. True)
         (case find (\<lambda>kv. decrypt (fst kv) = str i) d of
            None \<Rightarrow> bnd get (\<lambda>s. retrieve_walk i path ls
                (if PyStr [path ! level] = PyInt 0 then left s n else right s n))
          | Some (k, v) \<Rightarrow>
              bnd (dict_del k d) (\<lambda>d1.
              bnd (set_node_value n (Some d1)) (\<lambda>_.
              bnd (add_dummy d1) (\<lambda>d2.
              bnd (set_node_value n (Some d2)) (\<lambda>_.
              bnd get (\<lambda>s.
              bnd (if memory s i = None then raise KeyError
                   else modify (\<lambda>s. s\<lparr>memory := (memory s)(i := None)\<rparr>)) (\<lambda>_.
              bnd (store_data i (tl (decrypt v))) (\<lambda>_.
              ret (Some (tl (decrypt v)))))))))))
         (\<lambda>r s. \<forall>d. r = Some d \<longrightarrow> tagged i d s) (\<lambda>_ _. True)"
      proof (cases "find (\<lambda>kv. decrypt (fst kv) = str i) d")
        case None
        then show ?thesis
          by (simp, intro triple_get_bnd triple_pre[OF Cons.IH]) simp
      next
        case (Some kv)
        obtain k v where kv: "kv = (k, v)" by (cases kv)
        show ?thesis
          unfolding Some kv option.case prod.case
          apply (rule triple_bnd[where R = "\<lambda>_ _. True"], rule triple_weaken[OF triple_any], simp, simp, simp)
          apply (rule triple_bnd[where R = "\<lambda>_ _. True"], rule triple_weaken[OF triple_any], simp, simp, simp)
          apply (rule triple_bnd[where R = "\<lambda>_ _. True"], rule triple_weaken[OF triple_any], simp, simp, simp)
          apply (rule triple_bnd[where R = "\<lambda>_ _. True"], rule triple_weaken[OF triple_any], simp, simp, simp)
          apply (rule triple_get_bnd)
          apply (rule triple_bnd[where R = "\<lambda>_ s. memory s i = None"])
           apply (rule triple_if, rule triple_raise, simp, rule triple_modify, simp)
          apply (rule triple_bnd[where R = "\<lambda>_. tagged i (tl (decrypt v))"])
           apply (rule triple_weaken[OF store_data_tagged], simp, simp, simp)
          apply (rule triple_ret, simp)
          done
      qed
    qed
  qed
qed

lemma retrieve_data_never_corrupted:
  "fst (retrieve_data i s) \<noteq> Inr (Some ''The given id data was corrupted'')"
proof (cases "memory s i")
  case None
  then show ?thesis by (simp add: retrieve_data_def bnd_def get_def raise_def)
next
  case (Some bt)
  obtain bits t where bt: "bt = (bits, t)" by (cases bt)
  let ?w = "retrieve_walk i (drop 1 bits) [0..<length (drop 1 bits)] (Some get_root)"
  obtain r s1 where w: "?w s = (r, s1)" by (cases "?w s")
  have tg: "\<And>d. r = Inr (Some d) \<Longrightarrow> tagged i d s1"
    using tripleD[OF retrieve_walk_tagged _ w] by (auto split: sum.splits)
  show ?thesis
  proof (cases r)
    case (Inl e)
    then show ?thesis using Some bt w by (simp add: retrieve_data_def bnd_def get_def)
  next
    case (Inr x)
    show ?thesis
    proof (cases x)
      case None
      then show ?thesis using Some bt w Inr by (simp add: retrieve_data_def bnd_def get_def ret_def)
    next
      case (Some d)
      from tg[of d] Inr Some obtain b where "memory s1 i = Some (b, HMAC_SHA256 (key s1) (str i @ d))"
        by (auto simp: tagged_def)
      then show ?thesis using \<open>memory s i = Some bt\<close> bt w Inr Some
        by (auto simp: retrieve_data_def bnd_def get_def ret_def DATA_LEN_def)
    qed
  qed
qed

section \<open>Unknown ids\<close>

text \<open>
  Claim C4. For an id that is not in the position map, \<open>retrieve_data\<close> and \<open>delete_data\<close>
  are said to return \<open>None\<close> without an error. Both begin with \<open>self.__memory[id]\<close>, which
  raises \<open>KeyError\<close> for such an id before the tree is read; the state is left as it was.
\<close>

theorem unknown_id_raises:
  assumes "memory s i = None"
  shows "retrieve_data i s = (Inl KeyError, s) \<and> delete_data i s = (Inl KeyError, s)"
  using assms by (simp add: retrieve_data_def delete_data_def bnd_def get_def raise_def)

theorem unknown_id_raises_witness:
  "memory (server_7 draws_7) 5 = None \<and>
   retrieve_data 5 (server_7 draws_7) = (Inl KeyError, server_7 draws_7) \<and>
   delete_data 5 (server_7 draws_7) = (Inl KeyError, server_7 draws_7)"
  using unknown_id_raises [of "server_7 draws_7" 5] by (simp add: server_7_def)

section \<open>delete_data and the position map\<close>

lemma memory_free: "tape_free (\<lambda>s. memory s = m)" "iv_free (\<lambda>s. memory s = m)" "tree_free (\<lambda>s. memory s = m)"
  by (simp_all add: tape_free_def iv_free_def tree_free_def)

lemma delete_data_memory:
  assumes "delete_data i s = (r, s')"
  shows "memory s' = memory s"
  using preservesD[OF pres_delete_data[OF memory_free, of "memory s" i], OF _ assms] by simp

lemma delete_data_returns_known:
  assumes "delete_data i s = (Inr x, s')"
  shows "memory s i \<noteq> None"
  using assms by (auto simp: delete_data_def bnd_def get_def raise_def split: option.splits)

lemma store_after_delete:
  assumes "delete_data i s = (Inr x, s')"
  shows "store_data i d s' = (Inr (Some ''ID already exists. Please delete it first''), s')"
proof -
  have "memory s' i \<noteq> None"
    using delete_data_memory[OF assms] delete_data_returns_known[OF assms] by simp
  then show ?thesis by (simp add: store_data_def bnd_def get_def ret_def)
qed

section \<open>The methods in terms of their blocks\<close>

lemma bnd_assoc: "bnd (bnd f g) h = bnd f (\<lambda>x. bnd (g x) h)"
  by (auto simp: bnd_def fun_eq_iff split: prod.splits sum.splits)

lemma bnd_ret_left: "bnd (ret x) g = g x"
  by (simp add: bnd_def ret_def fun_eq_iff)

lemma push_selected_data_blocks:
  "push_selected_data k data prev level =
     bnd (direction_of k data level) (\<lambda>direction.
     bnd get (\<lambda>s.
     bnd (node_dict prev) (\<lambda>d.
     bnd (replace_by_dummy k d prev) (\<lambda>_.
     case (if direction = PyInt 0 then left s prev else right s prev) of
       None \<Rightarrow> raise AttributeError
     | Some nn \<Rightarrow> insert_into nn k data))))"
  unfolding push_selected_data_def direction_of_def replace_by_dummy_def insert_into_def Let_def
  by (simp add: bnd_assoc)

lemma retrieve_walk_blocks:
  "retrieve_walk i path (level # levels) (Some n) =
     bnd (node_dict n) (\<lambda>d.
       case find (\<lambda>kv. decrypt (fst kv) = str i) d of
         Some (k, v) \<Rightarrow>
           bnd (replace_by_dummy k d n) (\<lambda>_.
           bnd get (\<lambda>s.
           bnd (if memory s i = None then raise KeyError
                else modify (\<lambda>s. s\<lparr>memory := (memory s)(i := None)\<rparr>)) (\<lambda>_.
           bnd (store_data i (tl (decrypt v))) (\<lambda>_.
           ret (Some (tl (decrypt v)))))))
       | None \<Rightarrow>
           bnd get (\<lambda>s.
           retrieve_walk i path levels
             (if PyStr [path ! level] = PyInt 0 then left s n else right s n)))"
  unfolding replace_by_dummy_def retrieve_walk.simps delete_walk.simps
  by (simp add: bnd_assoc cong: option.case_cong)

lemma delete_walk_blocks:
  "delete_walk i path (level # levels) (Some n) =
     bnd (node_dict n) (\<lambda>d.
       case find (\<lambda>kv. decrypt (fst kv) = str i) d of
         Some (k, v) \<Rightarrow> bnd (replace_by_dummy k d n) (\<lambda>_. ret (Some (PyBytes (tl (decrypt v)))))
       | None \<Rightarrow>
           bnd get (\<lambda>s.
           delete_walk i path levels
             (if PyStr [path ! level] = PyInt 0 then left s n else right s n)))"
  unfolding replace_by_dummy_def retrieve_walk.simps delete_walk.simps
  by (simp add: bnd_assoc cong: option.case_cong)

section \<open>What the blocks do\<close>

lemma random_choice_cases:
  assumes "random_choice l s = (r, s')" "l \<noteq> []"
  shows "\<exists>t. s' = s\<lparr>tape := t\<rparr> \<and> (r = Inl TapeExhausted \<or> (\<exists>c. r = Inr c \<and> c \<in> set l))"
  using assms by (auto simp: random_choice_def split: list.splits intro: exI[of _ "tape s"])

lemma get_random_string_cases:
  assumes "get_random_string n s = (r, s')"
  shows "\<exists>t. s' = s\<lparr>tape := t\<rparr> \<and>
     (r = Inl TapeExhausted \<or> (\<exists>cs. r = Inr cs \<and> length cs = n \<and> set cs \<subseteq> set ascii_lowercase))"
  using assms
proof (induction n arbitrary: s r s')
  case 0
  then show ?case by (auto simp: ret_def intro: exI[of _ "tape s"])
next
  case (Suc n)
  obtain r1 s1 where c: "random_choice ascii_lowercase s = (r1, s1)"
    by (cases "random_choice ascii_lowercase s")
  from random_choice_cases[OF c] obtain t1 where s1: "s1 = s\<lparr>tape := t1\<rparr>"
    and r1: "r1 = Inl TapeExhausted \<or> (\<exists>c. r1 = Inr c \<and> c \<in> set ascii_lowercase)"
    by (auto simp: ascii_lowercase_def)
  show ?case
  proof (cases r1)
    case (Inl e)
    with Suc.prems c r1 s1 show ?thesis by (auto simp: bnd_def)
  next
    case (Inr ch)
    obtain r2 s2 where g: "get_random_string n s1 = (r2, s2)" by (cases "get_random_string n s1")
    from Suc.IH[OF g] obtain t2 where s2: "s2 = s1\<lparr>tape := t2\<rparr>"
      and r2: "r2 = Inl TapeExhausted \<or> (\<exists>cs. r2 = Inr cs \<and> length cs = n \<and> set cs \<subseteq> set ascii_lowercase)"
      by auto
    from Suc.prems c Inr g have res: "(r, s') = (case r2 of Inl e \<Rightarrow> (Inl e, s2) | Inr cs \<Rightarrow> (Inr (ch # cs), s2))"
      by (auto simp: bnd_def ret_def split: sum.splits)
    have "s2 = s\<lparr>tape := t2\<rparr>" using s1 s2 by simp
    with res r1 r2 Inr show ?thesis by (auto split: sum.splits)
  qed
qed

lemma add_dummy_cases:
  assumes "add_dummy d s = (r, s')"
  shows "\<exists>t. (r = Inl TapeExhausted \<and> s' = s\<lparr>tape := t, next_iv := Suc (next_iv s)\<rparr>) \<or>
          (\<exists>cs. length cs = DUMMY_LEN \<and> set cs \<subseteq> set ascii_lowercase \<and>
             r = Inr (dict_set (Token (Suc (next_iv s)) cs) (Token (next_iv s) ''00000'') d) \<and>
             s' = s\<lparr>tape := t, next_iv := Suc (Suc (next_iv s))\<rparr>)"
proof -
  let ?s1 = "s\<lparr>next_iv := Suc (next_iv s)\<rparr>"
  obtain r1 s1 where g: "get_random_string DUMMY_LEN ?s1 = (r1, s1)"
    by (cases "get_random_string DUMMY_LEN ?s1")
  from get_random_string_cases[OF g] obtain t where s1: "s1 = ?s1\<lparr>tape := t\<rparr>"
    and r1: "r1 = Inl TapeExhausted \<or> (\<exists>cs. r1 = Inr cs \<and> length cs = DUMMY_LEN \<and> set cs \<subseteq> set ascii_lowercase)"
    by auto
  from assms g have "(r, s') = (case r1 of Inl e \<Rightarrow> (Inl e, s1)
      | Inr cs \<Rightarrow> (Inr (dict_set (Token (next_iv s1) cs) (Token (next_iv s) ''00000'') d),
                   s1\<lparr>next_iv := Suc (next_iv s1)\<rparr>))"
    by (auto simp: add_dummy_def bnd_def encrypt_def ret_def split: sum.splits)
  with r1 s1 show ?thesis by (auto split: sum.splits intro!: exI[of _ t])
qed

lemma upd_node_twice [simp]: "upd_node n v (upd_node n w s) = upd_node n v s"
  by (cases "fst n < length (tree_arr s)") (simp_all add: upd_node_def list_update_beyond)

lemma upd_node_commute [simp]:
  "upd_node n v (s\<lparr>tape := t\<rparr>) = (upd_node n v s)\<lparr>tape := t\<rparr>"
  "upd_node n v (s\<lparr>next_iv := m\<rparr>) = (upd_node n v s)\<lparr>next_iv := m\<rparr>"
  "upd_node n v (s\<lparr>memory := mem\<rparr>) = (upd_node n v s)\<lparr>memory := mem\<rparr>"
  by (simp_all add: upd_node_def)

lemma replace_by_dummy_cases:
  assumes "replace_by_dummy k d n s = (r, s')"
  shows "(k \<notin> fst ` set d \<and> r = Inl KeyError \<and> s' = s) \<or>
         (k \<in> fst ` set d \<and> n \<notin> set (node_ids s) \<and> r = Inl IndexError \<and> s' = s) \<or>
         (k \<in> fst ` set d \<and> n \<in> set (node_ids s) \<and>
            (r = Inl TapeExhausted \<or>
             (\<exists>cs t. length cs = DUMMY_LEN \<and> set cs \<subseteq> set ascii_lowercase \<and> r = Inr () \<and>
                s' = (upd_node n (Some (dict_set (Token (Suc (next_iv s)) cs)
                        (Token (next_iv s) ''00000'') (AList.delete k d))) s)
                      \<lparr>tape := t, next_iv := Suc (Suc (next_iv s))\<rparr>)))"
proof (cases "k \<in> fst ` set d")
  case False
  with assms show ?thesis by (simp add: replace_by_dummy_def dict_del_def bnd_def raise_def)
next
  case k: True
  show ?thesis
  proof (cases "n \<in> set (node_ids s)")
    case False
    with assms k show ?thesis
      by (simp add: replace_by_dummy_def dict_del_def bnd_def ret_def set_node_value_eq)
  next
    case n: True
    let ?d1 = "AList.delete k d"
    let ?s1 = "upd_node n (Some ?d1) s"
    obtain r1 s1 where a: "add_dummy ?d1 ?s1 = (r1, s1)" by (cases "add_dummy ?d1 ?s1")
    from assms k n a have res: "(r, s') = (case r1 of Inl e \<Rightarrow> (Inl e, s1)
         | Inr d2 \<Rightarrow> set_node_value n (Some d2) s1)"
      by (auto simp: replace_by_dummy_def dict_del_def bnd_def ret_def set_node_value_eq
          split: sum.splits)
    from add_dummy_cases[OF a] obtain t where
      c: "(r1 = Inl TapeExhausted \<and> s1 = ?s1\<lparr>tape := t, next_iv := Suc (next_iv ?s1)\<rparr>) \<or>
          (\<exists>cs. length cs = DUMMY_LEN \<and> set cs \<subseteq> set ascii_lowercase \<and>
             r1 = Inr (dict_set (Token (Suc (next_iv ?s1)) cs) (Token (next_iv ?s1) ''00000'') ?d1) \<and>
             s1 = ?s1\<lparr>tape := t, next_iv := Suc (Suc (next_iv ?s1))\<rparr>)"
      by blast
    then show ?thesis
    proof
      assume "r1 = Inl TapeExhausted \<and> s1 = ?s1\<lparr>tape := t, next_iv := Suc (next_iv ?s1)\<rparr>"
      with res k n show ?thesis by simp
    next
      assume "\<exists>cs. length cs = DUMMY_LEN \<and> set cs \<subseteq> set ascii_lowercase \<and>
             r1 = Inr (dict_set (Token (Suc (next_iv ?s1)) cs) (Token (next_iv ?s1) ''00000'') ?d1) \<and>
             s1 = ?s1\<lparr>tape := t, next_iv := Suc (Suc (next_iv ?s1))\<rparr>"
      then obtain cs where cs: "length cs = DUMMY_LEN" "set cs \<subseteq> set ascii_lowercase"
        and r1: "r1 = Inr (dict_set (Token (Suc (next_iv s)) cs) (Token (next_iv s) ''00000'') ?d1)"
        and s1: "s1 = ?s1\<lparr>tape := t, next_iv := Suc (Suc (next_iv s))\<rparr>"
        by auto
      from res r1 s1 n have "r = Inr ()" and
        "s' = (upd_node n (Some (dict_set (Token (Suc (next_iv s)) cs)
                        (Token (next_iv s) ''00000'') ?d1)) s)
                      \<lparr>tape := t, next_iv := Suc (Suc (next_iv s))\<rparr>"
        by (simp_all add: set_node_value_eq)
      with k n cs show ?thesis by blast
    qed
  qed
qed

lemma find_dummy_Some:
  "find_dummy d = Inr (Some k) \<Longrightarrow>
   \<exists>v c cs. (k, v) \<in> set d \<and> decrypt v = c # cs \<and> c = DUM_VAL"
  by (induction d rule: find_dummy.induct) (auto split: list.splits if_splits)

lemma insert_into_cases:
  assumes "insert_into nn k data s = (r, s')"
  shows "(nn \<notin> set (node_ids s) \<and> r = Inl IndexError \<and> s' = s) \<or>
         (nn \<in> set (node_ids s) \<and> node_at s nn = None \<and> r = Inl TypeError \<and> s' = s) \<or>
         (\<exists>nd. nn \<in> set (node_ids s) \<and> node_at s nn = Some nd \<and>
            ((\<exists>e. find_dummy nd = Inl e \<and> r = Inl e \<and> s' = s) \<or>
             (find_dummy nd = Inr None \<and> r = Inr () \<and> s' = s) \<or>
             (\<exists>ck. find_dummy nd = Inr (Some ck) \<and> r = Inr () \<and>
                s' = upd_node nn (Some (dict_set k data (AList.delete ck nd))) s)))"
proof (cases "nn \<in> set (node_ids s)")
  case False
  with assms show ?thesis
    by (simp add: insert_into_def node_dict_def bnd_def node_value_eq)
next
  case nn: True
  show ?thesis
  proof (cases "node_at s nn")
    case None
    with assms nn show ?thesis
      by (simp add: insert_into_def node_dict_def bnd_def node_value_eq raise_def)
  next
    case (Some nd)
    show ?thesis
    proof (cases "find_dummy nd")
      case (Inl e)
      with assms nn Some show ?thesis
        by (simp add: insert_into_def node_dict_def bnd_def node_value_eq raise_def ret_def lift_def)
    next
      case (Inr f)
      show ?thesis
      proof (cases f)
        case None
        with assms nn Some Inr show ?thesis
          by (simp add: insert_into_def node_dict_def bnd_def node_value_eq raise_def ret_def lift_def)
      next
        case (Some ck)
        from find_dummy_Some[of nd ck] Inr Some have "ck \<in> fst ` set nd" by force
        with assms nn \<open>node_at s nn = Some nd\<close> Inr Some show ?thesis
          by (simp add: insert_into_def node_dict_def bnd_def node_value_eq raise_def ret_def
              lift_def dict_del_def set_node_value_eq)
      qed
    qed
  qed
qed

section \<open>Rules for keeps\<close>

lemma keepsD:
  "keeps P f \<Longrightarrow> P s \<Longrightarrow> f s = (r, s') \<Longrightarrow> r \<noteq> Inl TapeExhausted \<Longrightarrow> P s'"
  unfolding keeps_def by (drule (2) tripleD) (auto split: sum.splits)

lemma keepsI:
  "(\<And>s r s'. P s \<Longrightarrow> f s = (r, s') \<Longrightarrow> r \<noteq> Inl TapeExhausted \<Longrightarrow> P s') \<Longrightarrow> keeps P f"
  unfolding keeps_def by (rule tripleI) (auto split: sum.splits)

lemma keeps_of_preserves: "preserves P f \<Longrightarrow> keeps P f"
  unfolding keeps_def preserves_def by (erule triple_weaken) auto

lemma keeps_bnd [keep]: "keeps P f \<Longrightarrow> (\<And>x. keeps P (g x)) \<Longrightarrow> keeps P (bnd f g)"
  unfolding keeps_def by (rule triple_bnd)

lemma keeps_get_bnd [keep]: "(\<And>s0. keeps P (g s0)) \<Longrightarrow> keeps P (bnd get g)"
  unfolding keeps_def by (rule triple_get_bnd, rule triple_pre, assumption, simp)

lemma keeps_ret [keep]: "keeps P (ret x)"
  by (rule keeps_of_preserves) (rule pres)

lemma keeps_raise [keep]: "keeps P (raise e)"
  by (rule keeps_of_preserves) (rule pres)

lemma keeps_if [keep]: "(b \<Longrightarrow> keeps P f) \<Longrightarrow> (\<not> b \<Longrightarrow> keeps P g) \<Longrightarrow> keeps P (if b then f else g)"
  by simp

lemma keeps_case_option [keep]:
  "(x = None \<Longrightarrow> keeps P f) \<Longrightarrow> (\<And>y. x = Some y \<Longrightarrow> keeps P (g y)) \<Longrightarrow>
   keeps P (case x of None \<Rightarrow> f | Some y \<Rightarrow> g y)"
  by (cases x) simp_all

lemma keeps_case_list [keep]:
  "(x = [] \<Longrightarrow> keeps P f) \<Longrightarrow> (\<And>y ys. x = y # ys \<Longrightarrow> keeps P (g y ys)) \<Longrightarrow>
   keeps P (case x of [] \<Rightarrow> f | y # ys \<Rightarrow> g y ys)"
  by (cases x) simp_all

lemma keeps_case_prod [keep]:
  "(\<And>a b. x = (a, b) \<Longrightarrow> keeps P (f a b)) \<Longrightarrow> keeps P (case x of (a, b) \<Rightarrow> f a b)"
  by (cases x) simp_all

lemma keeps_for_each [keep]: "(\<And>x. keeps P (body x)) \<Longrightarrow> keeps P (for_each xs body)"
  unfolding keeps_def by (rule triple_for_each)

lemma keeps_lift [keep]: "keeps P (lift r)"
  by (rule keeps_of_preserves) (rule pres)

lemma keeps_node_value [keep]: "keeps P (node_value n)"
  by (rule keeps_of_preserves) (rule pres)

lemma keeps_node_dict [keep]: "keeps P (node_dict n)"
  by (rule keeps_of_preserves) (rule pres)

lemma keeps_dict_get [keep]: "keeps P (dict_get k d)"
  by (rule keeps_of_preserves) (rule pres)

lemma keeps_list_index [keep]: "keeps P (list_index xs i)"
  by (rule keeps_of_preserves) (rule pres)

lemma keeps_node_keys [keep]: "keeps P (node_keys n)"
  by (rule keeps_of_preserves) (rule pres)

lemma keeps_num_nodes [keep]: "keeps P (num_nodes_in_level i)"
  by (rule keeps_of_preserves) (rule pres)

lemma keeps_get_node [keep]: "keeps P (get_node_in_level i j)"
  by (rule keeps_of_preserves) (rule pres)

lemma keeps_randint [keep]: "tape_free P \<Longrightarrow> keeps P (randint a b)"
  by (rule keeps_of_preserves) (intro pres)

lemma keeps_randint_other [keep]: "tape_free P \<Longrightarrow> keeps P (randint_other a b r)"
  by (rule keeps_of_preserves) (intro pres)

lemma keeps_encrypt [keep]: "iv_free P \<Longrightarrow> keeps P (encrypt p)"
  by (rule keeps_of_preserves) (intro pres)

lemma keeps_modify: "(\<And>s. P s \<Longrightarrow> P (f s)) \<Longrightarrow> keeps P (modify f)"
  unfolding keeps_def by (rule triple_modify)

lemma keeps_direction_of [keep]: "tape_free P \<Longrightarrow> keeps P (direction_of k data level)"
  unfolding direction_of_def by (intro keep)

lemma node_dict_eq:
  "node_dict n s =
     (if n \<in> set (node_ids s)
      then (case node_at s n of None \<Rightarrow> (Inl TypeError, s) | Some d \<Rightarrow> (Inr d, s))
      else (Inl IndexError, s))"
  by (simp add: node_dict_def bnd_def node_value_eq raise_def ret_def split: option.splits)

section \<open>Association lists\<close>

lemma length_delete_distinct:
  "distinct (map fst d) \<Longrightarrow> k \<in> fst ` set d \<Longrightarrow> Suc (length (AList.delete k d)) = length d"
proof (induction d)
  case Nil
  then show ?case by simp
next
  case (Cons a d)
  show ?case
  proof (cases "fst a = k")
    case True
    with Cons.prems have "k \<notin> fst ` set d" by auto
    then have "AList.delete k d = d" by (rule AList.delete_id)
    with True show ?thesis by (cases a) simp
  next
    case False
    with Cons show ?thesis by (cases a) auto
  qed
qed

lemma update_append: "k \<notin> fst ` set d \<Longrightarrow> AList.update k v d = d @ [(k, v)]"
  by (induction d) auto

lemma keys_delete: "fst ` set (AList.delete k d) = fst ` set d - {k}"
  by (auto simp: AList.delete_eq)

section \<open>Full buckets and fresh tokens\<close>

lemma buckets_full_other [simp]:
  "buckets_full (s\<lparr>tape := t\<rparr>) = buckets_full s"
  "buckets_full (s\<lparr>next_iv := m\<rparr>) = buckets_full s"
  "buckets_full (s\<lparr>memory := mem\<rparr>) = buckets_full s"
  by (simp_all add: buckets_full_def)

lemma tokens_fresh_other [simp]:
  "tokens_fresh (s\<lparr>tape := t\<rparr>) = tokens_fresh s"
  "tokens_fresh (s\<lparr>memory := mem\<rparr>) = tokens_fresh s"
  by (simp_all add: tokens_fresh_def)

lemma tokens_fresh_iv: "tokens_fresh s \<Longrightarrow> next_iv s \<le> m \<Longrightarrow> tokens_fresh (s\<lparr>next_iv := m\<rparr>)"
  unfolding tokens_fresh_def by (simp, intro ballI conjI) (auto intro: less_le_trans)

lemma fresh_bound:
  "tokens_fresh s \<Longrightarrow> n \<in> set (node_ids s) \<Longrightarrow> k \<in> set (keys_at s n) \<Longrightarrow> iv k < next_iv s"
  by (auto simp: tokens_fresh_def)

lemma absent_other [simp]:
  "absent k (s\<lparr>tape := t\<rparr>) = absent k s"
  "absent k (s\<lparr>next_iv := m\<rparr>) = absent k s"
  "absent k (s\<lparr>memory := mem\<rparr>) = absent k s"
  by (simp_all add: absent_def)

lemma full_fresh_free: "tape_free full_fresh" "iv_free full_fresh"
  by (auto simp: tape_free_def iv_free_def full_fresh_def intro: tokens_fresh_iv)

lemma buckets_full_upd:
  "buckets_full s \<Longrightarrow> n \<in> set (node_ids s) \<Longrightarrow> length b = BUCKET_SIZE \<Longrightarrow>
   buckets_full (upd_node n (Some b) s)"
  by (auto simp: buckets_full_def node_at_upd)

lemma tokens_fresh_upd:
  assumes tf: "tokens_fresh s" and n: "n \<in> set (node_ids s)" and dist: "distinct (map fst b)"
    and bound: "\<forall>k \<in> fst ` set b. iv k < next_iv s"
    and disj: "\<forall>n' \<in> set (node_ids s). n' \<noteq> n \<longrightarrow> fst ` set b \<inter> set (keys_at s n') = {}"
  shows "tokens_fresh (upd_node n (Some b) s)"
  unfolding tokens_fresh_def
proof (intro ballI conjI impI)
  let ?s = "upd_node n (Some b) s"
  fix m assume "m \<in> set (node_ids ?s)"
  then have m: "m \<in> set (node_ids s)" by simp
  have km: "keys_at ?s x = (if x = n then map fst b else keys_at s x)" for x
    by (simp add: keys_at_upd[OF n])
  show "distinct (keys_at ?s m)"
    using tf m dist by (simp add: km tokens_fresh_def)
  show "iv k < next_iv ?s" if "k \<in> set (keys_at ?s m)" for k
  proof (cases "m = n")
    case True
    with that have "k \<in> fst ` set b" by (simp add: keys_at_upd[OF n])
    with bound show ?thesis by auto
  next
    case False
    with that have "k \<in> set (keys_at s m)" by (simp add: keys_at_upd[OF n])
    from fresh_bound[OF tf m this] show ?thesis by simp
  qed
  fix m' assume "m' \<in> set (node_ids ?s)" and ne: "m \<noteq> m'"
  then have m': "m' \<in> set (node_ids s)" by simp
  show "set (keys_at ?s m) \<inter> set (keys_at ?s m') = {}"
  proof (cases "m = n")
    case True
    with ne have "m' \<noteq> n" by simp
    with disj m' have "fst ` set b \<inter> set (keys_at s m') = {}" by simp
    with True \<open>m' \<noteq> n\<close> show ?thesis by (simp add: km)
  next
    case False
    show ?thesis
    proof (cases "m' = n")
      case True
      from disj m False have "fst ` set b \<inter> set (keys_at s m) = {}" by simp
      with True False show ?thesis by (auto simp: km)
    next
      case False
      with \<open>m \<noteq> n\<close> tf m m' ne show ?thesis by (simp add: km tokens_fresh_def)
    qed
  qed
qed

lemma bucket_facts:
  assumes "full_fresh s" "n \<in> set (node_ids s)" "node_at s n = Some d"
  shows "length d = BUCKET_SIZE" "distinct (map fst d)" "\<forall>k \<in> fst ` set d. iv k < next_iv s"
    "\<forall>n' \<in> set (node_ids s). n' \<noteq> n \<longrightarrow> fst ` set d \<inter> set (keys_at s n') = {}"
proof -
  from assms have k: "keys_at s n = map fst d" by (simp add: keys_at_def)
  from assms show "length d = BUCKET_SIZE" by (auto simp: full_fresh_def buckets_full_def)
  from assms(1,2) have "distinct (keys_at s n)" by (auto simp: full_fresh_def tokens_fresh_def)
  then show "distinct (map fst d)" by (simp add: k)
  from assms(1,2) have "\<forall>k \<in> set (keys_at s n). iv k < next_iv s"
    by (auto simp: full_fresh_def tokens_fresh_def)
  then show "\<forall>k \<in> fst ` set d. iv k < next_iv s" by (simp add: k)
  from assms(1,2) have "\<forall>n' \<in> set (node_ids s). n \<noteq> n' \<longrightarrow> set (keys_at s n) \<inter> set (keys_at s n') = {}"
    by (auto simp: full_fresh_def tokens_fresh_def)
  then show "\<forall>n' \<in> set (node_ids s). n' \<noteq> n \<longrightarrow> fst ` set d \<inter> set (keys_at s n') = {}"
    by (auto simp: k)
qed

text \<open>The state after a key has been replaced by a fresh dummy.\<close>

lemma replaced_full_fresh:
  fixes cs :: string and v0 :: string and t :: "nat list"
  assumes I: "full_fresh s" and n: "n \<in> set (node_ids s)" and d: "node_at s n = Some d"
    and k: "k \<in> fst ` set d"
  defines "s' \<equiv> (upd_node n (Some (dict_set (Token (Suc (next_iv s)) cs)
                        (Token (next_iv s) v0) (AList.delete k d))) s)
                      \<lparr>tape := t, next_iv := Suc (Suc (next_iv s))\<rparr>"
  shows "full_fresh s'" "absent k s'" "iv k < next_iv s'"
proof -
  note bf = bucket_facts[OF I n d]
  let ?kk = "Token (Suc (next_iv s)) cs"
  let ?d1 = "AList.delete k d"
  let ?b = "dict_set ?kk (Token (next_iv s) v0) ?d1"
  have kk_new: "?kk \<notin> fst ` set d" using bf(3) by fastforce
  then have kk1: "?kk \<notin> fst ` set ?d1" by (simp add: keys_delete)
  have b: "?b = ?d1 @ [(?kk, Token (next_iv s) v0)]"
    by (simp add: dict_set_def update_append[OF kk1])
  have len: "length ?b = BUCKET_SIZE"
    using length_delete_distinct[OF bf(2) k] bf(1) by (simp add: b)
  have keys_b: "fst ` set ?b = (fst ` set d - {k}) \<union> {?kk}"
    by (auto simp: b keys_delete)
  have dist: "distinct (map fst ?b)"
    using bf(2) kk1 by (simp add: b AList.distinct_delete)
  let ?s1 = "s\<lparr>next_iv := Suc (Suc (next_iv s))\<rparr>"
  have I1: "full_fresh ?s1" using I by (auto simp: full_fresh_def intro: tokens_fresh_iv)
  have kk_other: "?kk \<notin> set (keys_at s n')" if "n' \<in> set (node_ids s)" for n'
  proof
    assume "?kk \<in> set (keys_at s n')"
    from fresh_bound[OF _ that this] I have "iv ?kk < next_iv s" by (simp add: full_fresh_def)
    then show False by simp
  qed
  have disj: "\<forall>n' \<in> set (node_ids ?s1). n' \<noteq> n \<longrightarrow> fst ` set ?b \<inter> set (keys_at ?s1 n') = {}"
    using bf(4) kk_other by (auto simp: keys_b)
  have bound: "\<forall>k' \<in> fst ` set ?b. iv k' < next_iv ?s1"
    using bf(3) by (auto simp: keys_b)
  have n1: "n \<in> set (node_ids ?s1)" using n by simp
  have tf1: "tokens_fresh ?s1" and bf1: "buckets_full ?s1" using I1 by (simp_all add: full_fresh_def)
  have "tokens_fresh (upd_node n (Some ?b) ?s1)"
    by (rule tokens_fresh_upd[OF tf1 n1 dist bound disj])
  moreover have "buckets_full (upd_node n (Some ?b) ?s1)"
    by (rule buckets_full_upd[OF bf1 n1 len])
  moreover have "s' = (upd_node n (Some ?b) ?s1)\<lparr>tape := t\<rparr>" by (simp add: s'_def)
  ultimately show "full_fresh s'" by (simp only: full_fresh_def buckets_full_other tokens_fresh_other)
  have "k \<noteq> ?kk" using k kk_new by blast
  then have "k \<notin> fst ` set ?b" by (simp add: keys_b)
  moreover have "k \<notin> set (keys_at s n')" if "n' \<in> set (node_ids s)" "n' \<noteq> n" for n'
    using bf(4) k that by auto
  ultimately show "absent k s'"
    using n by (auto simp: absent_def s'_def keys_at_upd)
  show "iv k < next_iv s'" using bf(3) k by (auto simp: s'_def)
qed

lemma inserted_full_fresh:
  assumes I: "full_fresh s" and nn: "nn \<in> set (node_ids s)" and nd: "node_at s nn = Some nd"
    and ck: "find_dummy nd = Inr (Some ck)" and k: "absent k s" "iv k < next_iv s"
  shows "full_fresh (upd_node nn (Some (dict_set k data (AList.delete ck nd))) s)"
proof -
  note bf = bucket_facts[OF I nn nd]
  let ?d1 = "AList.delete ck nd"
  let ?b = "dict_set k data ?d1"
  from find_dummy_Some[OF ck] have ck_in: "ck \<in> fst ` set nd" by force
  have "k \<notin> set (keys_at s nn)" using k(1) nn by (simp add: absent_def)
  then have k_new: "k \<notin> fst ` set nd" using nd by (simp add: keys_at_def)
  then have k1: "k \<notin> fst ` set ?d1" by (simp add: keys_delete)
  have b: "?b = ?d1 @ [(k, data)]" by (simp add: dict_set_def update_append[OF k1])
  have len: "length ?b = BUCKET_SIZE"
    using length_delete_distinct[OF bf(2) ck_in] bf(1) by (simp add: b)
  have keys_b: "fst ` set ?b = (fst ` set nd - {ck}) \<union> {k}" by (auto simp: b keys_delete)
  have dist: "distinct (map fst ?b)" using bf(2) k1 by (simp add: b AList.distinct_delete)
  have disj: "\<forall>n' \<in> set (node_ids s). n' \<noteq> nn \<longrightarrow> fst ` set ?b \<inter> set (keys_at s n') = {}"
    using bf(4) k(1) by (auto simp: keys_b absent_def)
  have bound: "\<forall>k' \<in> fst ` set ?b. iv k' < next_iv s" using bf(3) k(2) by (auto simp: keys_b)
  from I have tf: "tokens_fresh s" and bfl: "buckets_full s" by (simp_all add: full_fresh_def)
  show ?thesis
    unfolding full_fresh_def
    using tokens_fresh_upd[OF tf nn dist bound disj] buckets_full_upd[OF bfl nn len] by simp
qed

lemma insert_into_full_fresh:
  assumes "full_fresh s" "absent k s" "iv k < next_iv s" "insert_into nn k data s = (r, s')"
  shows "full_fresh s'"
  using insert_into_cases[OF assms(4)] assms(1-3) inserted_full_fresh by blast

lemma replace_by_dummy_full_fresh:
  assumes "full_fresh s" "n \<in> set (node_ids s)" "node_at s n = Some d"
    "replace_by_dummy k d n s = (r, s')" "r \<noteq> Inl TapeExhausted"
  shows "full_fresh s' \<and> node_ids s' = node_ids s \<and> height s' = height s \<and>
         (r = Inr () \<longrightarrow> absent k s' \<and> iv k < next_iv s')"
  using replace_by_dummy_cases[OF assms(4)] assms(1,2,3,5)
    replaced_full_fresh[OF assms(1,2,3)]
  by (elim disjE conjE exE) auto

lemma keeps_push_selected_data [keep]: "keeps full_fresh (push_selected_data k data prev level)"
proof (rule keepsI)
  fix s r s'
  assume I: "full_fresh s" and run: "push_selected_data k data prev level s = (r, s')"
    and nt: "r \<noteq> Inl TapeExhausted"
  obtain r1 s1 where d: "direction_of k data level s = (r1, s1)"
    by (cases "direction_of k data level s")
  have I1: "full_fresh s1" if "r1 \<noteq> Inl TapeExhausted"
    using keepsD[OF keeps_direction_of[OF full_fresh_free(1)] I d that] .
  show "full_fresh s'"
  proof (cases r1)
    case (Inl e)
    with run d nt I1 show ?thesis by (auto simp: push_selected_data_blocks bnd_def)
  next
    case (Inr dir)
    then have I1': "full_fresh s1" using I1 by simp
    let ?next = "if dir = PyInt 0 then left s1 prev else right s1 prev"
    show ?thesis
    proof (cases "prev \<in> set (node_ids s1) \<and> node_at s1 prev \<noteq> None")
      case False
      with run d Inr I1' show ?thesis
        by (auto simp: push_selected_data_blocks bnd_def get_def node_dict_eq
            split: option.splits if_splits)
    next
      case True
      then obtain b where pv: "prev \<in> set (node_ids s1)" and b: "node_at s1 prev = Some b" by auto
      obtain r3 s3 where rp: "replace_by_dummy k b prev s1 = (r3, s3)"
        by (cases "replace_by_dummy k b prev s1")
      define nx where "nx = (if dir = PyInt 0 then left s1 prev else right s1 prev)"
      from run d Inr pv b have run': "bnd (replace_by_dummy k b prev)
           (\<lambda>_. case nx of None \<Rightarrow> raise AttributeError | Some nn \<Rightarrow> insert_into nn k data) s1 = (r, s')"
        by (simp add: push_selected_data_blocks bnd_def get_def node_dict_eq nx_def)
      show ?thesis
      proof (cases r3)
        case (Inl e)
        with run' rp have "r = Inl e" "s' = s3" by (simp_all add: bnd_def)
        with nt replace_by_dummy_full_fresh[OF I1' pv b rp] Inl show ?thesis by auto
      next
        case (Inr u)
        with replace_by_dummy_full_fresh[OF I1' pv b rp]
        have I3: "full_fresh s3" "absent k s3" "iv k < next_iv s3" by auto
        show ?thesis
        proof (cases nx)
          case None
          with run' rp Inr have "s' = s3" by (simp add: bnd_def raise_def)
          with I3 show ?thesis by simp
        next
          case (Some nn)
          with run' rp Inr have "insert_into nn k data s3 = (r, s')" by (simp add: bnd_def)
          from insert_into_full_fresh[OF I3 this] show ?thesis .
        qed
      qed
    qed
  qed
qed

lemma keeps_rand_and_push [keep]: "keeps full_fresh (rand_and_push n level)"
  unfolding rand_and_push_def by (intro keep full_fresh_free)

lemma keeps_push_levels [keep]: "keeps full_fresh (push_levels ls)"
  by (induction ls) (auto intro!: keep full_fresh_free)

lemma keeps_push_down [keep]: "keeps full_fresh push_down"
  unfolding push_down_def by (intro keep)

section \<open>Re-encryption of a bucket\<close>

lemma reencrypt_spec:
  assumes "distinct (map fst acc)" "\<forall>k \<in> fst ` set acc. lo \<le> iv k \<and> iv k < next_iv s"
    "lo \<le> next_iv s"
  shows "\<exists>res. reencrypt d acc s = (Inr res, s\<lparr>next_iv := next_iv s + 2 * length d\<rparr>) \<and>
           length res = length acc + length d \<and> distinct (map fst res) \<and>
           (\<forall>k \<in> fst ` set res. lo \<le> iv k \<and> iv k < next_iv s + 2 * length d) \<and>
           map (\<lambda>(k, v). (decrypt k, decrypt v)) res =
             map (\<lambda>(k, v). (decrypt k, decrypt v)) acc @ map (\<lambda>(k, v). (decrypt k, decrypt v)) d"
  using assms
proof (induction d arbitrary: acc s)
  case Nil
  then show ?case by (simp add: ret_def)
next
  case (Cons a d)
  obtain k v where a: "a = (k, v)" by (cases a)
  let ?ek = "Token (next_iv s) (decrypt k)"
  let ?ev = "Token (Suc (next_iv s)) (decrypt v)"
  let ?s2 = "s\<lparr>next_iv := Suc (Suc (next_iv s))\<rparr>"
  have new: "?ek \<notin> fst ` set acc" using Cons.prems(2) by fastforce
  have acc': "dict_set ?ek ?ev acc = acc @ [(?ek, ?ev)]"
    by (simp add: dict_set_def update_append[OF new])
  have step: "reencrypt (a # d) acc s = reencrypt d (acc @ [(?ek, ?ev)]) ?s2"
    by (simp add: a bnd_def encrypt_def acc')
  have p1: "distinct (map fst (acc @ [(?ek, ?ev)]))" using Cons.prems(1) new by simp
  have p2: "\<forall>k \<in> fst ` set (acc @ [(?ek, ?ev)]). lo \<le> iv k \<and> iv k < next_iv ?s2"
    using Cons.prems(2,3) by auto
  have p3: "lo \<le> next_iv ?s2" using Cons.prems(3) by simp
  from Cons.IH[OF p1 p2 p3] obtain res where
    r: "reencrypt d (acc @ [(?ek, ?ev)]) ?s2 = (Inr res, ?s2\<lparr>next_iv := next_iv ?s2 + 2 * length d\<rparr>)"
    and l: "length res = length (acc @ [(?ek, ?ev)]) + length d"
    and di: "distinct (map fst res)"
    and bd: "\<forall>k \<in> fst ` set res. lo \<le> iv k \<and> iv k < next_iv ?s2 + 2 * length d"
    and pl: "map (\<lambda>(k, v). (decrypt k, decrypt v)) res =
             map (\<lambda>(k, v). (decrypt k, decrypt v)) (acc @ [(?ek, ?ev)]) @
             map (\<lambda>(k, v). (decrypt k, decrypt v)) d"
    by blast
  have st: "?s2\<lparr>next_iv := next_iv ?s2 + 2 * length d\<rparr> = s\<lparr>next_iv := next_iv s + 2 * length (a # d)\<rparr>"
    by simp
  have run: "reencrypt (a # d) acc s = (Inr res, s\<lparr>next_iv := next_iv s + 2 * length (a # d)\<rparr>)"
    by (simp only: step r st)
  have l': "length res = length acc + length (a # d)" using l by simp
  have bd': "\<forall>k \<in> fst ` set res. lo \<le> iv k \<and> iv k < next_iv s + 2 * length (a # d)"
    using bd by simp
  have pl': "map (\<lambda>(k, v). (decrypt k, decrypt v)) res =
             map (\<lambda>(k, v). (decrypt k, decrypt v)) acc @
             map (\<lambda>(k, v). (decrypt k, decrypt v)) (a # d)"
    using pl by (simp add: a decrypt_def)
  from run l' di bd' pl' show ?case by blast
qed

lemma encrypt_node_spec:
  assumes n: "n \<in> set (node_ids s)" and d: "node_at s n = Some d"
  shows "\<exists>res. encrypt_node n s =
            (Inr (), (upd_node n (Some res) s)\<lparr>next_iv := next_iv s + 2 * length d\<rparr>) \<and>
           length res = length d \<and> distinct (map fst res) \<and>
           (\<forall>k \<in> fst ` set res. next_iv s \<le> iv k \<and> iv k < next_iv s + 2 * length d) \<and>
           map (\<lambda>(k, v). (decrypt k, decrypt v)) res = map (\<lambda>(k, v). (decrypt k, decrypt v)) d"
proof -
  from reencrypt_spec[of "[]" "next_iv s" s d] obtain res where
    r: "reencrypt d [] s = (Inr res, s\<lparr>next_iv := next_iv s + 2 * length d\<rparr>)"
    and p: "length res = length d" "distinct (map fst res)"
      "\<forall>k \<in> fst ` set res. next_iv s \<le> iv k \<and> iv k < next_iv s + 2 * length d"
      "map (\<lambda>(k, v). (decrypt k, decrypt v)) res = map (\<lambda>(k, v). (decrypt k, decrypt v)) d"
    by auto
  have "encrypt_node n s = (Inr (), (upd_node n (Some res) s)\<lparr>next_iv := next_iv s + 2 * length d\<rparr>)"
    using n d r by (simp add: encrypt_node_def bnd_def node_dict_eq set_node_value_eq)
  with p show ?thesis by blast
qed

text \<open>A node that receives a bucket of new tokens.\<close>

lemma new_bucket_full_fresh:
  assumes I: "tokens_fresh s" "buckets_full s \<or> (\<forall>m \<in> set (node_ids s). m \<noteq> n \<longrightarrow>
              (case node_at s m of None \<Rightarrow> False | Some b \<Rightarrow> length b = BUCKET_SIZE))"
    and n: "n \<in> set (node_ids s)" and len: "length b = BUCKET_SIZE"
    and dist: "distinct (map fst b)"
    and bound: "\<forall>k \<in> fst ` set b. next_iv s \<le> iv k \<and> iv k < N"
  shows "full_fresh ((upd_node n (Some b) s)\<lparr>next_iv := N\<rparr>)"
proof -
  let ?s1 = "s\<lparr>next_iv := N\<rparr>"
  have le: "next_iv s \<le> N"
  proof (cases b)
    case Nil
    with len show ?thesis by (simp add: BUCKET_SIZE_def)
  next
    case (Cons a list)
    with bound have "next_iv s \<le> iv (fst a) \<and> iv (fst a) < N" by simp
    then show ?thesis by simp
  qed
  have tf1: "tokens_fresh ?s1" using I(1) le by (rule tokens_fresh_iv)
  have n1: "n \<in> set (node_ids ?s1)" using n by simp
  have b1: "\<forall>k \<in> fst ` set b. iv k < next_iv ?s1" using bound by simp
  have d1: "\<forall>n' \<in> set (node_ids ?s1). n' \<noteq> n \<longrightarrow> fst ` set b \<inter> set (keys_at ?s1 n') = {}"
  proof (intro ballI impI)
    fix n' assume n': "n' \<in> set (node_ids ?s1)" "n' \<noteq> n"
    show "fst ` set b \<inter> set (keys_at ?s1 n') = {}"
    proof (rule ccontr)
      assume "fst ` set b \<inter> set (keys_at ?s1 n') \<noteq> {}"
      then obtain k where k: "k \<in> fst ` set b" "k \<in> set (keys_at s n')" by auto
      from fresh_bound[OF I(1) _ k(2)] n' have "iv k < next_iv s" by simp
      with bound k(1) show False by auto
    qed
  qed
  have tf: "tokens_fresh (upd_node n (Some b) ?s1)"
    by (rule tokens_fresh_upd[OF tf1 n1 dist b1 d1])
  have bfl: "buckets_full (upd_node n (Some b) ?s1)"
    unfolding buckets_full_def
  proof
    fix m assume "m \<in> set (node_ids (upd_node n (Some b) ?s1))"
    then have m: "m \<in> set (node_ids s)" by simp
    show "case node_at (upd_node n (Some b) ?s1) m of None \<Rightarrow> False | Some b \<Rightarrow> length b = BUCKET_SIZE"
    proof (cases "m = n")
      case True
      then show ?thesis using len n1 by (simp add: node_at_upd)
    next
      case False
      with I(2) m have "case node_at s m of None \<Rightarrow> False | Some b \<Rightarrow> length b = BUCKET_SIZE"
        by (auto simp: buckets_full_def)
      with False n1 show ?thesis by (simp add: node_at_upd)
    qed
  qed
  have "(upd_node n (Some b) s)\<lparr>next_iv := N\<rparr> = upd_node n (Some b) ?s1" by simp
  with tf bfl show ?thesis by (simp only: full_fresh_def)
qed

lemma keeps_encrypt_node [keep]: "keeps full_fresh (encrypt_node n)"
proof (rule keepsI)
  fix s r s'
  assume I: "full_fresh s" and run: "encrypt_node n s = (r, s')"
  show "full_fresh s'"
  proof (cases "n \<in> set (node_ids s) \<and> node_at s n \<noteq> None")
    case False
    with run I show ?thesis
      by (auto simp: encrypt_node_def bnd_def node_dict_eq split: if_splits option.splits)
  next
    case True
    then obtain d where n: "n \<in> set (node_ids s)" and d: "node_at s n = Some d" by auto
    note bf = bucket_facts[OF I n d]
    from encrypt_node_spec[OF n d] run obtain res where
      s': "s' = (upd_node n (Some res) s)\<lparr>next_iv := next_iv s + 2 * length d\<rparr>"
      and p: "length res = length d" "distinct (map fst res)"
        "\<forall>k \<in> fst ` set res. next_iv s \<le> iv k \<and> iv k < next_iv s + 2 * length d"
      by auto
    from I have tf: "tokens_fresh s" and bfl: "buckets_full s" by (simp_all add: full_fresh_def)
    show ?thesis
      unfolding s'
      by (rule new_bucket_full_fresh[OF tf _ n _ p(2) p(3)]) (use bfl p(1) bf(1) in simp_all)
  qed
qed

lemma triple_node_dict:
  assumes "\<And>s. P s \<Longrightarrow> P' s" "\<And>e s. P' s \<Longrightarrow> E e s"
  shows "triple P (node_dict n) (\<lambda>d s. P' s \<and> n \<in> set (node_ids s) \<and> node_at s n = Some d) E"
  using assms by (intro tripleI) (auto simp: node_dict_eq split: if_splits option.splits)

lemma triple_node_value:
  assumes "\<And>s. P s \<Longrightarrow> P' s" "\<And>e s. P' s \<Longrightarrow> E e s"
  shows "triple P (node_value n) (\<lambda>v s. P' s \<and> n \<in> set (node_ids s) \<and> node_at s n = v) E"
  using assms by (intro tripleI) (auto simp: node_value_eq split: if_splits)

lemma triple_lift:
  assumes "\<And>e s. P s \<Longrightarrow> E e s"
  shows "triple P (lift r) (\<lambda>x s. P s \<and> r = Inr x) E"
  using assms by (intro tripleI) (auto simp: lift_def ret_def raise_def split: sum.splits)

lemma triple_case_option:
  "(x = None \<Longrightarrow> triple P f Q E) \<Longrightarrow> (\<And>y. x = Some y \<Longrightarrow> triple P (g y) Q E) \<Longrightarrow>
   triple P (case x of None \<Rightarrow> f | Some y \<Rightarrow> g y) Q E"
  by (cases x) simp_all

lemma triple_keeps: "keeps P f \<Longrightarrow> triple P f (\<lambda>_. P) (\<lambda>e s. e \<noteq> TapeExhausted \<longrightarrow> P s)"
  by (simp add: keeps_def)

section \<open>The insertion into the root bucket\<close>

lemma root_insert_spec:
  assumes I: "full_fresh s" and n: "n \<in> set (node_ids s)" and d: "node_at s n = Some d"
    and k: "k \<in> fst ` set d"
  shows "\<exists>res.
     bnd (dict_del k d) (\<lambda>d1.
     bnd (set_node_value n (Some d1)) (\<lambda>_.
     bnd (encrypt pv) (\<lambda>enc_val.
     bnd (encrypt pk) (\<lambda>enc_key.
     bnd (set_node_value n (Some (dict_set enc_key enc_val d1))) (\<lambda>_.
     encrypt_node n))))) s =
       (Inr (), (upd_node n (Some res) s)\<lparr>next_iv := next_iv s + 2 + 2 * length d\<rparr>) \<and>
     length res = length d \<and> distinct (map fst res) \<and>
     (\<forall>k \<in> fst ` set res. next_iv s \<le> iv k \<and> iv k < next_iv s + 2 + 2 * length d) \<and>
     map (\<lambda>(k, v). (decrypt k, decrypt v)) res =
       map (\<lambda>(k, v). (decrypt k, decrypt v)) (AList.delete k d) @ [(pk, pv)]"
proof -
  note bf = bucket_facts[OF I n d]
  let ?d1 = "AList.delete k d"
  let ?ek = "Token (Suc (next_iv s)) pk"
  let ?ev = "Token (next_iv s) pv"
  have new: "?ek \<notin> fst ` set ?d1"
  proof
    assume "?ek \<in> fst ` set ?d1"
    then have "?ek \<in> fst ` set d" by (simp add: keys_delete)
    with bf(3) have "iv ?ek < next_iv s" by blast
    then show False by simp
  qed
  have d2: "dict_set ?ek ?ev ?d1 = ?d1 @ [(?ek, ?ev)]"
    by (simp add: dict_set_def update_append[OF new])
  let ?s2 = "(upd_node n (Some (?d1 @ [(?ek, ?ev)])) s)\<lparr>next_iv := Suc (Suc (next_iv s))\<rparr>"
  have blk: "bnd (dict_del k d) (\<lambda>d1.
     bnd (set_node_value n (Some d1)) (\<lambda>_.
     bnd (encrypt pv) (\<lambda>enc_val.
     bnd (encrypt pk) (\<lambda>enc_key.
     bnd (set_node_value n (Some (dict_set enc_key enc_val d1))) (\<lambda>_.
     encrypt_node n))))) s = encrypt_node n ?s2"
    using k n by (simp add: bnd_def dict_del_def ret_def set_node_value_eq encrypt_def d2)
  have n2: "n \<in> set (node_ids ?s2)" using n by simp
  have v2: "node_at ?s2 n = Some (?d1 @ [(?ek, ?ev)])" using n by (simp add: node_at_upd)
  have len2: "length (?d1 @ [(?ek, ?ev)]) = length d"
    using length_delete_distinct[OF bf(2) k] by simp
  from encrypt_node_spec[OF n2 v2] obtain res where
    r: "encrypt_node n ?s2 =
          (Inr (), (upd_node n (Some res) ?s2)\<lparr>next_iv := next_iv ?s2 + 2 * length (?d1 @ [(?ek, ?ev)])\<rparr>)"
    and p: "length res = length (?d1 @ [(?ek, ?ev)])" "distinct (map fst res)"
      "\<forall>k \<in> fst ` set res. next_iv ?s2 \<le> iv k \<and> iv k < next_iv ?s2 + 2 * length (?d1 @ [(?ek, ?ev)])"
      "map (\<lambda>(k, v). (decrypt k, decrypt v)) res =
         map (\<lambda>(k, v). (decrypt k, decrypt v)) (?d1 @ [(?ek, ?ev)])"
    by blast
  have st: "(upd_node n (Some res) ?s2)\<lparr>next_iv := next_iv ?s2 + 2 * length (?d1 @ [(?ek, ?ev)])\<rparr>
            = (upd_node n (Some res) s)\<lparr>next_iv := next_iv s + 2 + 2 * length d\<rparr>"
    using len2 by simp
  have b: "\<forall>k \<in> fst ` set res. next_iv s \<le> iv k \<and> iv k < next_iv s + 2 + 2 * length d"
    using p(3) len2 by auto
  have pl: "map (\<lambda>(k, v). (decrypt k, decrypt v)) res =
       map (\<lambda>(k, v). (decrypt k, decrypt v)) ?d1 @ [(pk, pv)]"
    using p(4) by (simp add: decrypt_def)
  from blk r st p(1,2) len2 b pl show ?thesis by (intro exI[of _ res]) simp
qed

lemma root_insert_keeps:
  "triple (\<lambda>s. full_fresh s \<and> n \<in> set (node_ids s) \<and> node_at s n = Some d \<and>
               find_dummy d = Inr (Some k))
     (bnd (dict_del k d) (\<lambda>d1.
      bnd (set_node_value n (Some d1)) (\<lambda>_.
      bnd (encrypt pv) (\<lambda>enc_val.
      bnd (encrypt pk) (\<lambda>enc_key.
      bnd (set_node_value n (Some (dict_set enc_key enc_val d1))) (\<lambda>_.
      encrypt_node n))))))
     (\<lambda>_. full_fresh) (\<lambda>e s. e \<noteq> TapeExhausted \<longrightarrow> full_fresh s)"
proof (rule tripleI)
  fix s r s'
  assume pre: "full_fresh s \<and> n \<in> set (node_ids s) \<and> node_at s n = Some d \<and>
               find_dummy d = Inr (Some k)"
    and run: "bnd (dict_del k d) (\<lambda>d1.
      bnd (set_node_value n (Some d1)) (\<lambda>_.
      bnd (encrypt pv) (\<lambda>enc_val.
      bnd (encrypt pk) (\<lambda>enc_key.
      bnd (set_node_value n (Some (dict_set enc_key enc_val d1))) (\<lambda>_.
      encrypt_node n))))) s = (r, s')"
  then have I: "full_fresh s" and n: "n \<in> set (node_ids s)" and d: "node_at s n = Some d" by auto
  from pre find_dummy_Some[of d k] have k: "k \<in> fst ` set d" by force
  note bf = bucket_facts[OF I n d]
  from root_insert_spec[OF I n d k, of pv pk] run obtain res where
    r: "r = Inr ()" and s': "s' = (upd_node n (Some res) s)\<lparr>next_iv := next_iv s + 2 + 2 * length d\<rparr>"
    and p: "length res = length d" "distinct (map fst res)"
      "\<forall>k \<in> fst ` set res. next_iv s \<le> iv k \<and> iv k < next_iv s + 2 + 2 * length d"
    by auto
  from I have tf: "tokens_fresh s" and bfl: "buckets_full s" by (simp_all add: full_fresh_def)
  have "full_fresh s'"
    unfolding s'
    by (rule new_bucket_full_fresh[OF tf _ n _ p(2) p(3)]) (use bfl p(1) bf(1) in simp_all)
  with r show "case r of Inl e \<Rightarrow> e \<noteq> TapeExhausted \<longrightarrow> full_fresh s' | Inr x \<Rightarrow> full_fresh s'"
    by simp
qed

lemma full_fresh_memory [simp]: "full_fresh (s\<lparr>memory := mem\<rparr>) = full_fresh s"
  by (simp add: full_fresh_def)

lemma full_fresh_root_value:
  "full_fresh s \<Longrightarrow> n \<in> set (node_ids s) \<Longrightarrow> node_at s n \<noteq> None"
  by (auto simp: full_fresh_def buckets_full_def split: option.splits)

lemma keeps_store_data [keep]: "keeps full_fresh (store_data i data)"
  unfolding store_data_def keeps_def
  apply (rule triple_get_bnd)
  apply (rule triple_if)
   apply (rule triple_ret, simp)
  apply (rule triple_bnd[where R = "\<lambda>v s. full_fresh s \<and> get_root \<in> set (node_ids s) \<and> node_at s get_root = v"])
   apply (rule triple_node_value, simp, simp)
  apply (rule triple_bnd[where R = "\<lambda>_. full_fresh"])
   apply (rule triple_if)
    apply (rule triple_false)
    apply (auto dest: full_fresh_root_value)[1]
   apply (rule triple_ret, simp)
  apply (rule triple_get_bnd)
  apply (rule triple_bnd[where R = "\<lambda>_. full_fresh"])
   apply (rule triple_pre, rule triple_keeps, rule keeps_randint, rule full_fresh_free, simp)
  apply (rule triple_bnd[where R = "\<lambda>_. full_fresh"])
   apply (rule triple_modify, simp)
  apply (rule triple_bnd[where R = "\<lambda>d s. full_fresh s \<and> get_root \<in> set (node_ids s) \<and> node_at s get_root = Some d"])
   apply (rule triple_node_dict, simp, simp)
  apply (rule triple_bnd)
   apply (rule triple_lift, simp)
  apply (rule triple_bnd[where R = "\<lambda>_. full_fresh"])
   apply (rule triple_case_option)
    apply (rule triple_ret, simp)
   apply (rule triple_pre, rule root_insert_keeps, simp)
  apply (rule triple_bnd[where R = "\<lambda>_. full_fresh"])
   apply (rule triple_keeps, rule keeps_push_down)
  apply (rule triple_ret, simp)
  done

section \<open>retrieve_data and delete_data keep the buckets full\<close>

lemma replace_by_dummy_keeps:
  "triple (\<lambda>s. full_fresh s \<and> n \<in> set (node_ids s) \<and> node_at s n = Some d)
     (replace_by_dummy k d n) (\<lambda>_. full_fresh) (\<lambda>e s. e \<noteq> TapeExhausted \<longrightarrow> full_fresh s)"
proof (rule tripleI)
  fix s r s'
  assume pre: "full_fresh s \<and> n \<in> set (node_ids s) \<and> node_at s n = Some d"
    and run: "replace_by_dummy k d n s = (r, s')"
  show "case r of Inl e \<Rightarrow> e \<noteq> TapeExhausted \<longrightarrow> full_fresh s' | Inr x \<Rightarrow> full_fresh s'"
  proof (cases "r = Inl TapeExhausted")
    case True
    then show ?thesis by simp
  next
    case False
    from replace_by_dummy_full_fresh[OF _ _ _ run False] pre have "full_fresh s'" by blast
    then show ?thesis by (simp split: sum.splits)
  qed
qed

lemma keeps_retrieve_walk [keep]: "keeps full_fresh (retrieve_walk i path ls cur)"
proof (induction ls arbitrary: cur)
  case Nil
  show ?case by (simp add: keep)
next
  case (Cons level ls)
  show ?case
  proof (cases cur)
    case None
    then show ?thesis by (simp add: keep)
  next
    case (Some n)
    show ?thesis
      unfolding Some retrieve_walk_blocks keeps_def
    proof (rule triple_bnd, rule triple_node_dict[where P' = full_fresh])
      fix d
      show "triple (\<lambda>s. full_fresh s \<and> n \<in> set (node_ids s) \<and> node_at s n = Some d)
        (case find (\<lambda>kv. decrypt (fst kv) = str i) d of
           None \<Rightarrow> bnd get (\<lambda>s. retrieve_walk i path ls
               (if PyStr [path ! level] = PyInt 0 then left s n else right s n))
         | Some (k, v) \<Rightarrow>
             bnd (replace_by_dummy k d n) (\<lambda>_.
             bnd get (\<lambda>s.
             bnd (if memory s i = None then raise KeyError
                  else modify (\<lambda>s. s\<lparr>memory := (memory s)(i := None)\<rparr>)) (\<lambda>_.
             bnd (store_data i (tl (decrypt v))) (\<lambda>_.
             ret (Some (tl (decrypt v))))))))
        (\<lambda>_. full_fresh) (\<lambda>e s. e \<noteq> TapeExhausted \<longrightarrow> full_fresh s)"
      proof (cases "find (\<lambda>kv. decrypt (fst kv) = str i) d")
        case None
        have "keeps full_fresh (bnd get (\<lambda>s. retrieve_walk i path ls
               (if PyStr [path ! level] = PyInt 0 then left s n else right s n)))"
          by (intro keep Cons.IH)
        then show ?thesis unfolding None option.case keeps_def by (rule triple_pre) simp
      next
        case (Some kv)
        obtain k v where kv: "kv = (k, v)" by (cases kv)
        have rest: "keeps full_fresh (bnd get (\<lambda>s.
             bnd (if memory s i = None then raise KeyError
                  else modify (\<lambda>s. s\<lparr>memory := (memory s)(i := None)\<rparr>)) (\<lambda>_.
             bnd (store_data i (tl (decrypt v))) (\<lambda>_.
             ret (Some (tl (decrypt v)))))))"
          by (intro keep keeps_modify) simp
        show ?thesis
          unfolding Some kv option.case prod.case
          by (rule triple_bnd[OF replace_by_dummy_keeps]) (rule triple_keeps[OF rest])
      qed
    qed simp_all
  qed
qed

lemma keeps_retrieve_data: "keeps full_fresh (retrieve_data i)"
  unfolding retrieve_data_def by (intro keep)

lemma keeps_delete_walk [keep]: "keeps full_fresh (delete_walk i path ls cur)"
proof (induction ls arbitrary: cur)
  case Nil
  show ?case by (simp add: keep)
next
  case (Cons level ls)
  show ?case
  proof (cases cur)
    case None
    then show ?thesis by (simp add: keep)
  next
    case (Some n)
    show ?thesis
      unfolding Some delete_walk_blocks keeps_def
    proof (rule triple_bnd, rule triple_node_dict[where P' = full_fresh])
      fix d
      show "triple (\<lambda>s. full_fresh s \<and> n \<in> set (node_ids s) \<and> node_at s n = Some d)
        (case find (\<lambda>kv. decrypt (fst kv) = str i) d of
           None \<Rightarrow> bnd get (\<lambda>s. delete_walk i path ls
               (if PyStr [path ! level] = PyInt 0 then left s n else right s n))
         | Some (k, v) \<Rightarrow> bnd (replace_by_dummy k d n) (\<lambda>_. ret (Some (PyBytes (tl (decrypt v))))))
        (\<lambda>_. full_fresh) (\<lambda>e s. e \<noteq> TapeExhausted \<longrightarrow> full_fresh s)"
      proof (cases "find (\<lambda>kv. decrypt (fst kv) = str i) d")
        case None
        have "keeps full_fresh (bnd get (\<lambda>s. delete_walk i path ls
               (if PyStr [path ! level] = PyInt 0 then left s n else right s n)))"
          by (intro keep Cons.IH)
        then show ?thesis unfolding None option.case keeps_def by (rule triple_pre) simp
      next
        case (Some kv)
        obtain k v where kv: "kv = (k, v)" by (cases kv)
        show ?thesis
          unfolding Some kv option.case prod.case
          by (rule triple_bnd[OF replace_by_dummy_keeps]) (rule triple_ret, simp)
      qed
    qed simp_all
  qed
qed

lemma keeps_delete_data: "keeps full_fresh (delete_data i)"
  unfolding delete_data_def by (intro keep)

section \<open>Filling the server with dummies\<close>

lemma triple_for_each_idx:
  assumes "\<And>i. i < length xs \<Longrightarrow> triple (Inv i) (body (xs ! i)) (\<lambda>_. Inv (Suc i)) E"
  shows "triple (Inv 0) (for_each xs body) (\<lambda>_. Inv (length xs)) E"
  using assms
proof (induction xs arbitrary: Inv)
  case Nil
  show ?case by (simp add: triple_ret)
next
  case (Cons x xs)
  have 1: "triple (Inv 0) (body x) (\<lambda>_. Inv (Suc 0)) E" using Cons.prems[of 0] by simp
  have 2: "triple (Inv (Suc 0)) (for_each xs body) (\<lambda>_. Inv (Suc (length xs))) E"
    using Cons.IH[of "\<lambda>i. Inv (Suc i)"] Cons.prems[of "Suc i" for i] by simp
  show ?case by (simp, rule triple_bnd[OF 1]) (rule 2)
qed

lemma shape_upd [simp]: "map length (tree_arr (upd_node n v s)) = map length (tree_arr s)"
proof (cases "fst n < length (tree_arr s)")
  case False
  then show ?thesis by (simp add: upd_node_def list_update_beyond)
next
  case True
  let ?xs = "tree_arr s"
  have "map length (?xs[fst n := (?xs ! fst n)[snd n := v]])
        = (map length ?xs)[fst n := (map length ?xs) ! fst n]"
    using True by (simp add: map_update)
  also have "\<dots> = map length ?xs" by (rule list_update_id)
  finally show ?thesis by (simp add: upd_node_def)
qed

lemma node_ids_shape:
  "map length (tree_arr s) = sh \<Longrightarrow>
   (n \<in> set (node_ids s)) = (fst n < length sh \<and> snd n < sh ! fst n)"
  by (auto simp: set_node_ids)

lemma full_at_other [simp]:
  "full_at (s\<lparr>tape := t\<rparr>) = full_at s" "full_at (s\<lparr>next_iv := m\<rparr>) = full_at s"
  by (simp_all add: full_at_def fun_eq_iff)

lemma full_at_upd:
  "n \<in> set (node_ids s) \<Longrightarrow>
   full_at (upd_node n v s) m =
     (if m = n then (case v of None \<Rightarrow> False | Some b \<Rightarrow> length b = BUCKET_SIZE) else full_at s m)"
  by (simp add: full_at_def node_at_upd)

lemma appended_fresh:
  fixes cs :: string and t :: "nat list"
  assumes tf: "tokens_fresh s" and n: "n \<in> set (node_ids s)" and b: "node_at s n = Some b"
  shows "tokens_fresh ((upd_node n (Some (b @ [(Token (Suc (next_iv s)) cs, vv)])) s)
            \<lparr>tape := t, next_iv := Suc (Suc (next_iv s))\<rparr>)"
proof -
  let ?kk = "Token (Suc (next_iv s)) cs"
  let ?b = "b @ [(?kk, vv)]"
  let ?s1 = "s\<lparr>next_iv := Suc (Suc (next_iv s))\<rparr>"
  have kb: "keys_at s n = map fst b" using b by (simp add: keys_at_def)
  have tf1: "tokens_fresh ?s1" using tf by (rule tokens_fresh_iv) simp
  have n1: "n \<in> set (node_ids ?s1)" using n by simp
  have old: "iv k < next_iv s" if "k \<in> fst ` set b" for k
    using fresh_bound[OF tf n, of k] that by (simp add: kb)
  have kk_new: "?kk \<notin> fst ` set b" using old[of ?kk] by auto
  have "distinct (keys_at s n)" using tf n by (simp add: tokens_fresh_def)
  then have dist: "distinct (map fst ?b)" using kk_new by (simp add: kb)
  have bound: "\<forall>k \<in> fst ` set ?b. iv k < next_iv ?s1"
  proof
    fix k assume "k \<in> fst ` set ?b"
    then have "k = ?kk \<or> k \<in> fst ` set b" by auto
    then show "iv k < next_iv ?s1"
    proof
      assume "k = ?kk"
      then show ?thesis by simp
    next
      assume "k \<in> fst ` set b"
      from old[OF this] show ?thesis by simp
    qed
  qed
  have disj: "\<forall>n' \<in> set (node_ids ?s1). n' \<noteq> n \<longrightarrow> fst ` set ?b \<inter> set (keys_at ?s1 n') = {}"
  proof (intro ballI impI)
    fix n' assume n': "n' \<in> set (node_ids ?s1)" "n' \<noteq> n"
    then have n'': "n' \<in> set (node_ids s)" by simp
    have "set (keys_at s n) \<inter> set (keys_at s n') = {}"
      using tf n n'' n'(2) by (auto simp: tokens_fresh_def)
    moreover have "?kk \<notin> set (keys_at s n')"
      using fresh_bound[OF tf n'', of ?kk] by auto
    ultimately show "fst ` set ?b \<inter> set (keys_at ?s1 n') = {}" by (auto simp: kb)
  qed
  have "tokens_fresh (upd_node n (Some ?b) ?s1)"
    by (rule tokens_fresh_upd[OF tf1 n1 dist bound disj])
  moreover have "(upd_node n (Some ?b) s)\<lparr>tape := t, next_iv := Suc (Suc (next_iv s))\<rparr>
                 = (upd_node n (Some ?b) ?s1)\<lparr>tape := t\<rparr>"
    by simp
  ultimately show ?thesis by (simp only: tokens_fresh_other)
qed

lemma fill_step:
  assumes tf: "tokens_fresh s" and n: "n \<in> set (node_ids s)" and b: "node_at s n = Some b"
    and run: "bnd (node_dict n) (\<lambda>d. bnd (add_dummy d) (\<lambda>d'. set_node_value n (Some d'))) s = (r, s')"
  shows "r = Inl TapeExhausted \<or>
         (r = Inr () \<and> (\<exists>cs t. s' = (upd_node n (Some (b @ [(Token (Suc (next_iv s)) cs,
                                     Token (next_iv s) ''00000'')])) s)
                                   \<lparr>tape := t, next_iv := Suc (Suc (next_iv s))\<rparr>))"
proof -
  obtain r1 s1 where a: "add_dummy b s = (r1, s1)" by (cases "add_dummy b s")
  have kb: "keys_at s n = map fst b" using b by (simp add: keys_at_def)
  have new: "Token (Suc (next_iv s)) cs \<notin> fst ` set b" for cs
    using fresh_bound[OF tf n, of "Token (Suc (next_iv s)) cs"] by (auto simp: kb)
  from run n b a have res: "(r, s') = (case r1 of Inl e \<Rightarrow> (Inl e, s1)
       | Inr d' \<Rightarrow> set_node_value n (Some d') s1)"
    by (simp add: bnd_def node_dict_eq split: sum.splits)
  from add_dummy_cases[OF a] obtain t where
    "(r1 = Inl TapeExhausted \<and> s1 = s\<lparr>tape := t, next_iv := Suc (next_iv s)\<rparr>) \<or>
     (\<exists>cs. length cs = DUMMY_LEN \<and> set cs \<subseteq> set ascii_lowercase \<and>
        r1 = Inr (dict_set (Token (Suc (next_iv s)) cs) (Token (next_iv s) ''00000'') b) \<and>
        s1 = s\<lparr>tape := t, next_iv := Suc (Suc (next_iv s))\<rparr>)"
    by blast
  then show ?thesis
  proof
    assume "r1 = Inl TapeExhausted \<and> s1 = s\<lparr>tape := t, next_iv := Suc (next_iv s)\<rparr>"
    with res show ?thesis by simp
  next
    assume "\<exists>cs. length cs = DUMMY_LEN \<and> set cs \<subseteq> set ascii_lowercase \<and>
        r1 = Inr (dict_set (Token (Suc (next_iv s)) cs) (Token (next_iv s) ''00000'') b) \<and>
        s1 = s\<lparr>tape := t, next_iv := Suc (Suc (next_iv s))\<rparr>"
    then obtain cs where
      r1: "r1 = Inr (dict_set (Token (Suc (next_iv s)) cs) (Token (next_iv s) ''00000'') b)"
      and s1: "s1 = s\<lparr>tape := t, next_iv := Suc (Suc (next_iv s))\<rparr>" by blast
    have "dict_set (Token (Suc (next_iv s)) cs) (Token (next_iv s) ''00000'') b
          = b @ [(Token (Suc (next_iv s)) cs, Token (next_iv s) ''00000'')]"
      by (simp add: dict_set_def update_append[OF new])
    with res r1 s1 n show ?thesis by (auto simp: set_node_value_eq)
  qed
qed

lemma fill_node_spec:
  assumes n: "fst n < length sh" "snd n < sh ! fst n"
  shows "triple (filling sh N) (fill_node n) (\<lambda>_. filling sh (insert n N))
           (\<lambda>e s. e = TapeExhausted)"
  unfolding fill_node_def
proof (rule triple_bnd[where R = "\<lambda>_ s. filling sh (N - {n}) s \<and> (\<exists>b. node_at s n = Some b \<and> length b = 0)"])
  show "triple (filling sh N) (set_node_value n (Some []))
     (\<lambda>_ s. filling sh (N - {n}) s \<and> (\<exists>b. node_at s n = Some b \<and> length b = 0))
     (\<lambda>e s. e = TapeExhausted)"
  proof (rule tripleI)
    fix s r s'
    assume f: "filling sh N s" and run: "set_node_value n (Some []) s = (r, s')"
    from f n have nn: "n \<in> set (node_ids s)" by (simp add: filling_def node_ids_shape)
    with run have r: "r = Inr ()" and s': "s' = upd_node n (Some []) s"
      by (simp_all add: set_node_value_eq)
    from f have tf: "tokens_fresh s" by (simp add: filling_def)
    have "tokens_fresh s'" unfolding s' by (rule tokens_fresh_upd[OF tf nn]) simp_all
    with f nn show "case r of Inl e \<Rightarrow> e = TapeExhausted
        | Inr x \<Rightarrow> filling sh (N - {n}) s' \<and> (\<exists>b. node_at s' n = Some b \<and> length b = 0)"
      by (auto simp: r s' filling_def full_at_upd node_at_upd)
  qed
next
  fix u :: unit
  let ?Inv = "\<lambda>i s. filling sh (N - {n}) s \<and> (\<exists>b. node_at s n = Some b \<and> length b = i)"
  have body: "triple (?Inv i)
      (bnd (node_dict n) (\<lambda>d. bnd (add_dummy d) (\<lambda>d'. set_node_value n (Some d'))))
      (\<lambda>_. ?Inv (Suc i)) (\<lambda>e s. e = TapeExhausted)" for i
  proof (rule tripleI)
    fix s r s'
    assume inv: "?Inv i s"
      and run: "bnd (node_dict n) (\<lambda>d. bnd (add_dummy d) (\<lambda>d'. set_node_value n (Some d'))) s = (r, s')"
    then obtain b where b: "node_at s n = Some b" "length b = i" by blast
    from inv have f: "filling sh (N - {n}) s" by simp
    from f n have nn: "n \<in> set (node_ids s)" by (simp add: filling_def node_ids_shape)
    from f have tf: "tokens_fresh s" by (simp add: filling_def)
    from fill_step[OF tf nn b(1) run] show "case r of Inl e \<Rightarrow> e = TapeExhausted | Inr x \<Rightarrow> ?Inv (Suc i) s'"
    proof
      assume "r = Inl TapeExhausted"
      then show ?thesis by simp
    next
      assume "r = Inr () \<and> (\<exists>cs t. s' = (upd_node n (Some (b @ [(Token (Suc (next_iv s)) cs,
                                     Token (next_iv s) ''00000'')])) s)
                                   \<lparr>tape := t, next_iv := Suc (Suc (next_iv s))\<rparr>)"
      then obtain cs t where r: "r = Inr ()"
        and s': "s' = (upd_node n (Some (b @ [(Token (Suc (next_iv s)) cs,
                                     Token (next_iv s) ''00000'')])) s)
                                   \<lparr>tape := t, next_iv := Suc (Suc (next_iv s))\<rparr>" by blast
      have "tokens_fresh s'" unfolding s' by (rule appended_fresh[OF tf nn b(1)])
      with f nn b show ?thesis
        by (auto simp: r s' filling_def full_at_upd node_at_upd)
    qed
  qed
  have loop: "triple (?Inv 0)
      (for_each [0..<BUCKET_SIZE] (\<lambda>i. bnd (node_dict n) (\<lambda>d. bnd (add_dummy d) (\<lambda>d'. set_node_value n (Some d')))))
      (\<lambda>_. ?Inv (length [0..<BUCKET_SIZE])) (\<lambda>e s. e = TapeExhausted)"
    by (rule triple_for_each_idx) (rule body)
  show "triple (\<lambda>s. filling sh (N - {n}) s \<and> (\<exists>b. node_at s n = Some b \<and> length b = 0))
      (for_each [0..<BUCKET_SIZE] (\<lambda>i. bnd (node_dict n) (\<lambda>d. bnd (add_dummy d) (\<lambda>d'. set_node_value n (Some d')))))
      (\<lambda>_. filling sh (insert n N)) (\<lambda>e s. e = TapeExhausted)"
    by (rule triple_weaken[OF loop]) (auto simp: filling_def full_at_def)
qed

lemma fill_level_spec:
  assumes l: "l < length sh"
  shows "triple (filling sh {m. fst m < l \<and> snd m < sh ! fst m})
     (bnd (num_nodes_in_level l) (\<lambda>n. for_each [0..<n] (\<lambda>j. bnd (get_node_in_level l j) fill_node)))
     (\<lambda>_. filling sh {m. fst m < Suc l \<and> snd m < sh ! fst m}) (\<lambda>e s. e = TapeExhausted)"
proof -
  let ?N = "\<lambda>j. {m. fst m < l \<and> snd m < sh ! fst m} \<union> {m. fst m = l \<and> snd m < j}"
  have body: "triple (filling sh (?N j)) (bnd (get_node_in_level l j) fill_node)
                (\<lambda>_. filling sh (?N (Suc j))) (\<lambda>e s. e = TapeExhausted)" if "j < sh ! l" for j
  proof (rule triple_bnd[where R = "\<lambda>x s. filling sh (?N j) s \<and> x = (l, j)"])
    show "triple (filling sh (?N j)) (get_node_in_level l j)
            (\<lambda>x s. filling sh (?N j) s \<and> x = (l, j)) (\<lambda>e s. e = TapeExhausted)"
    proof (rule tripleI)
      fix s r s'
      assume f: "filling sh (?N j) s" and run: "get_node_in_level l j s = (r, s')"
      from f have sh: "map length (tree_arr s) = sh" by (simp add: filling_def)
      then have "l < length (tree_arr s)" "j < length (tree_arr s ! l)"
        using l that by (auto simp: sh[symmetric])
      with run f show "case r of Inl e \<Rightarrow> e = TapeExhausted
          | Inr x \<Rightarrow> filling sh (?N j) s' \<and> x = (l, j)"
        by (auto simp: get_node_in_level_def)
    qed
  next
    fix x
    have ins: "insert (l, j) (?N j) = ?N (Suc j)" by (auto simp: less_Suc_eq)
    have "triple (filling sh (?N j)) (fill_node (l, j)) (\<lambda>_. filling sh (insert (l, j) (?N j)))
            (\<lambda>e s. e = TapeExhausted)"
      by (rule fill_node_spec) (use l that in simp_all)
    then show "triple (\<lambda>s. filling sh (?N j) s \<and> x = (l, j)) (fill_node x)
            (\<lambda>_. filling sh (?N (Suc j))) (\<lambda>e s. e = TapeExhausted)"
      unfolding ins by (auto simp: triple_def)
  qed
  have loop: "triple (filling sh (?N 0))
     (for_each [0..<sh ! l] (\<lambda>j. bnd (get_node_in_level l j) fill_node))
     (\<lambda>_. filling sh (?N (length [0..<sh ! l]))) (\<lambda>e s. e = TapeExhausted)"
    by (rule triple_for_each_idx[where Inv = "\<lambda>j. filling sh (?N j)"]) (simp add: body)
  have fin: "?N (sh ! l) = {m. fst m < Suc l \<and> snd m < sh ! fst m}"
    by (auto simp: less_Suc_eq)
  have start: "?N 0 = {m. fst m < l \<and> snd m < sh ! fst m}" by auto
  show ?thesis
  proof (rule triple_bnd[where R = "\<lambda>n s. filling sh {m. fst m < l \<and> snd m < sh ! fst m} s \<and> n = sh ! l"])
    show "triple (filling sh {m. fst m < l \<and> snd m < sh ! fst m}) (num_nodes_in_level l)
       (\<lambda>n s. filling sh {m. fst m < l \<and> snd m < sh ! fst m} s \<and> n = sh ! l)
       (\<lambda>e s. e = TapeExhausted)"
    proof (rule tripleI)
      fix s r s'
      assume f: "filling sh {m. fst m < l \<and> snd m < sh ! fst m} s"
        and run: "num_nodes_in_level l s = (r, s')"
      from f have sh: "map length (tree_arr s) = sh" by (simp add: filling_def)
      then have "l < length (tree_arr s)" "length (tree_arr s ! l) = sh ! l"
        using l by (auto simp: sh[symmetric])
      with run f show "case r of Inl e \<Rightarrow> e = TapeExhausted
          | Inr n \<Rightarrow> filling sh {m. fst m < l \<and> snd m < sh ! fst m} s' \<and> n = sh ! l"
        by (auto simp: num_nodes_in_level_def)
    qed
  next
    fix n
    from loop show "triple (\<lambda>s. filling sh {m. fst m < l \<and> snd m < sh ! fst m} s \<and> n = sh ! l)
       (for_each [0..<n] (\<lambda>j. bnd (get_node_in_level l j) fill_node))
       (\<lambda>_. filling sh {m. fst m < Suc l \<and> snd m < sh ! fst m}) (\<lambda>e s. e = TapeExhausted)"
      unfolding start by (auto simp: triple_def fin)
  qed
qed

lemma fill_server_spec:
  assumes tf: "tokens_fresh s" and sh: "length (tree_arr s) = height s + 1"
    and run: "fill_server_with_dummies s = (r, s')"
  shows "r = Inl TapeExhausted \<or> (r = Inr () \<and> buckets_full s' \<and> tokens_fresh s')"
proof -
  define sh where "sh = map length (tree_arr s)"
  let ?N = "\<lambda>l. {m. fst m < l \<and> snd m < sh ! fst m}"
  have len: "length sh = height s + 1" using assms(2) by (simp add: sh_def)
  have loop: "triple (filling sh (?N 0))
      (for_each [0..<height s + 1] (\<lambda>level.
         bnd (num_nodes_in_level level) (\<lambda>n. for_each [0..<n] (\<lambda>j.
           bnd (get_node_in_level level j) fill_node))))
      (\<lambda>_. filling sh (?N (length [0..<height s + 1]))) (\<lambda>e s. e = TapeExhausted)"
    by (rule triple_for_each_idx[where Inv = "\<lambda>l. filling sh (?N l)"])
      (use len in \<open>simp del: upt_Suc add: fill_level_spec\<close>)
  have start: "filling sh (?N 0) s" using tf by (simp add: filling_def sh_def)
  from run have run': "for_each [0..<height s + 1] (\<lambda>level.
         bnd (num_nodes_in_level level) (\<lambda>n. for_each [0..<n] (\<lambda>j.
           bnd (get_node_in_level level j) fill_node))) s = (r, s')"
    by (simp add: fill_server_with_dummies_def bnd_def get_def)
  from tripleD[OF loop start run'] show ?thesis
  proof (cases r)
    case (Inl e)
    with tripleD[OF loop start run'] show ?thesis by simp
  next
    case (Inr u)
    with tripleD[OF loop start run'] have f: "filling sh (?N (height s + 1)) s'" by simp
    then have sh': "map length (tree_arr s') = sh" and tf': "tokens_fresh s'"
      and full: "\<forall>m \<in> ?N (height s + 1). full_at s' m" by (simp_all add: filling_def)
    have "buckets_full s'"
      unfolding buckets_full_def
    proof
      fix n assume "n \<in> set (node_ids s')"
      then have "fst n < length sh" "snd n < sh ! fst n" by (simp_all add: node_ids_shape[OF sh'])
      with len full have "full_at s' n" by (cases n) simp
      then show "case node_at s' n of None \<Rightarrow> False | Some b \<Rightarrow> length b = BUCKET_SIZE"
        by (simp add: full_at_def)
    qed
    with tf' Inr show ?thesis by simp
  qed
qed

section \<open>The size of the buckets\<close>

text \<open>
  Claim C5. Once the tree has been initialized, every bucket holds exactly \<open>BUCKET_SIZE\<close>
  entries, and \<open>store_data\<close>, \<open>retrieve_data\<close>, \<open>delete_data\<close> and a push-down pass keep it
  so. Filling a server whose \<open>tree_arr\<close> has \<open>height + 1\<close> levels leaves every bucket full;
  and from a state with full buckets each of the four methods leaves the buckets full,
  whether it returns or raises an exception of the program (a run that stops because the
  list of draws is used up is cut off in the middle of a method and is left out). Fresh
  tokens are what the model takes Fernet to give; they are kept as well.
\<close>

theorem bucket_size_invariant:
  "(tokens_fresh s \<and> length (tree_arr s) = height s + 1 \<and>
      fill_server_with_dummies s = (Inr (), s') \<longrightarrow> buckets_full s' \<and> tokens_fresh s') \<and>
   (buckets_full s \<and> tokens_fresh s \<longrightarrow>
      (\<forall>r s'. store_data i d s = (r, s') \<and> r \<noteq> Inl TapeExhausted \<longrightarrow>
         buckets_full s' \<and> tokens_fresh s') \<and>
      (\<forall>r s'. retrieve_data i s = (r, s') \<and> r \<noteq> Inl TapeExhausted \<longrightarrow>
         buckets_full s' \<and> tokens_fresh s') \<and>
      (\<forall>r s'. delete_data i s = (r, s') \<and> r \<noteq> Inl TapeExhausted \<longrightarrow>
         buckets_full s' \<and> tokens_fresh s') \<and>
      (\<forall>r s'. push_down s = (r, s') \<and> r \<noteq> Inl TapeExhausted \<longrightarrow>
         buckets_full s' \<and> tokens_fresh s'))"
proof (intro conjI impI allI)
  assume "tokens_fresh s \<and> length (tree_arr s) = height s + 1 \<and>
      fill_server_with_dummies s = (Inr (), s')"
  then have "buckets_full s' \<and> tokens_fresh s'"
    using fill_server_spec [of s "Inr ()" s'] by simp
  then show "buckets_full s'" "tokens_fresh s'" by simp_all
next
  fix r s'
  assume I: "buckets_full s \<and> tokens_fresh s"
    and run: "store_data i d s = (r, s') \<and> r \<noteq> Inl TapeExhausted"
  from I have "full_fresh s" by (simp add: full_fresh_def)
  from keepsD [OF keeps_store_data this] run have "full_fresh s'" by blast
  then show "buckets_full s'" "tokens_fresh s'" by (simp_all add: full_fresh_def)
next
  fix r s'
  assume I: "buckets_full s \<and> tokens_fresh s"
    and run: "retrieve_data i s = (r, s') \<and> r \<noteq> Inl TapeExhausted"
  from I have "full_fresh s" by (simp add: full_fresh_def)
  from keepsD [OF keeps_retrieve_data this] run have "full_fresh s'" by blast
  then show "buckets_full s'" "tokens_fresh s'" by (simp_all add: full_fresh_def)
next
  fix r s'
  assume I: "buckets_full s \<and> tokens_fresh s"
    and run: "delete_data i s = (r, s') \<and> r \<noteq> Inl TapeExhausted"
  from I have "full_fresh s" by (simp add: full_fresh_def)
  from keepsD [OF keeps_delete_data this] run have "full_fresh s'" by blast
  then show "buckets_full s'" "tokens_fresh s'" by (simp_all add: full_fresh_def)
next
  fix r s'
  assume I: "buckets_full s \<and> tokens_fresh s"
    and run: "push_down s = (r, s') \<and> r \<noteq> Inl TapeExhausted"
  from I have "full_fresh s" by (simp add: full_fresh_def)
  from keepsD [OF keeps_push_down this] run have "full_fresh s'" by blast
  then show "buckets_full s'" "tokens_fresh s'" by (simp_all add: full_fresh_def)
qed

section \<open>Runs on concrete servers\<close>

lemma log2_vals:
  "\<lfloor>log 2 (8::real)\<rfloor> = 3" "\<lceil>log 2 (8::real)\<rceil> = 3" "\<lfloor>log 2 (7::real)\<rfloor> = 2"
  using floor_log_nat_eq_if [of 2 3 8] ceiling_log_nat_eq_if [of 2 2 8]
    floor_log_nat_eq_if [of 2 2 7]
  by simp_all

lemma Server_7: "Server 7 7 draws = Inr (server_7 draws)"
  by (simp add: Server_def PerfectTree_def fix_size_def log2_vals build_tree_arr_def
      numeral_2_eq_2 server_7_def)

lemma Server_1: "Server 1 7 draws = Inr (server_1 draws)"
  by (simp add: Server_def PerfectTree_def fix_size_def build_tree_arr_def server_1_def)

text \<open>
  Claim C1. A path bit 0 is said to select the left child and a bit 1 the right child, in
  the walk of \<open>retrieve_data\<close> and in the push-down of a real entry. In the code the bit is
  a character of the string \<open>bin(leaf)[2:]\<close>, and it is compared with the integer \<open>0\<close>:
  the comparison is false for \<open>'0'\<close> and for \<open>'1'\<close>, and the right child is taken every
  time. On \<open>Server(7)\<close>, \<open>store_data(1, 'aaaa')\<close> with leaf 8 drawn records the bits \<open>1000\<close>;
  the push-down pass that picks the entry on both levels moves it from node \<open>(1, 1)\<close>, where
  the bit at position 1 is \<open>0\<close>, to the right child \<open>(2, 3)\<close> and not to the left child
  \<open>(2, 2)\<close>; and \<open>retrieve_data(1)\<close>, whose path is \<open>000\<close>, finds it there, at the end of the
  rightmost path.
\<close>

theorem path_bits_compared_with_int:
  "Server 7 7 draws_7 = Inr (server_7 draws_7) \<and>
   (case store_data 1 ''aaaa'' (server_7 draws_7) of
      (r, s) \<Rightarrow>
        r = Inr None \<and> memory s 1 = Some (''1000'', HMAC_SHA256 7 ''1aaaa'') \<and>
        left s (1, 1) = Some (2, 2) \<and> right s (1, 1) = Some (2, 3) \<and>
        filter (\<lambda>n. (''1'', ''1aaaa'') \<in> set (entries_at s n)) (node_ids s) = [(2, 3)] \<and>
        fst (retrieve_data 1 s) = Inr (Some ''aaaa''))"
proof -
  have "case store_data 1 ''aaaa'' (server_7 draws_7) of
      (r, s) \<Rightarrow>
        r = Inr None \<and> memory s 1 = Some (''1000'', HMAC_SHA256 7 ''1aaaa'') \<and>
        left s (1, 1) = Some (2, 2) \<and> right s (1, 1) = Some (2, 3) \<and>
        filter (\<lambda>n. (''1'', ''1aaaa'') \<in> set (entries_at s n)) (node_ids s) = [(2, 3)] \<and>
        fst (retrieve_data 1 s) = Inr (Some ''aaaa'')"
    by code_simp
  then show ?thesis by (simp add: Server_7)
qed

text \<open>
  Claim C3. The tag recomputed by \<open>retrieve_data\<close> is said to be compared with the tag
  recorded at the original store, before the reinsert overwrites the position map. In the
  code the walk deletes \<open>memory[id]\<close> and calls \<open>store_data\<close> with the data just read, which
  records the tag of that data; the comparison after the walk is with this new tag and
  cannot fail (\<open>retrieve_data_never_corrupted\<close> above). On \<open>Server(1)\<close>, after
  \<open>store_data(1, 'aaaa')\<close> and \<open>store_data(2, 'bbbb')\<close>, a server that exchanges the two value
  tokens makes \<open>retrieve_data(1)\<close> return \<open>bbbb\<close>, although the recorded tag was that of
  \<open>aaaa\<close>.
\<close>

theorem hmac_compared_after_reinsert:
  "Server 1 7 (replicate 20 0) = Inr (server_1 (replicate 20 0)) \<and>
   (case store_data 1 ''aaaa'' (server_1 (replicate 20 0)) of
      (r1, s1) \<Rightarrow>
        (case store_data 2 ''bbbb'' s1 of
           (r2, s2) \<Rightarrow>
             r1 = Inr None \<and> r2 = Inr None \<and>
             (case tree_arr s2 of
                [[Some [a, b, (k1, v1), (k2, v2)]]] \<Rightarrow>
                  decrypt k1 = ''1'' \<and> decrypt v1 = ''1aaaa'' \<and>
                  decrypt k2 = ''2'' \<and> decrypt v2 = ''1bbbb'' \<and>
                  memory s2 1 = Some (''10'', HMAC_SHA256 7 ''1aaaa'') \<and>
                  fst (retrieve_data 1 (s2\<lparr>tree_arr := [[Some [a, b, (k1, v2), (k2, v1)]]]\<rparr>))
                    = Inr (Some ''bbbb'')
              | _ \<Rightarrow> False)))"
proof -
  have "case store_data 1 ''aaaa'' (server_1 (replicate 20 0)) of
      (r1, s1) \<Rightarrow>
        (case store_data 2 ''bbbb'' s1 of
           (r2, s2) \<Rightarrow>
             r1 = Inr None \<and> r2 = Inr None \<and>
             (case tree_arr s2 of
                [[Some [a, b, (k1, v1), (k2, v2)]]] \<Rightarrow>
                  decrypt k1 = ''1'' \<and> decrypt v1 = ''1aaaa'' \<and>
                  decrypt k2 = ''2'' \<and> decrypt v2 = ''1bbbb'' \<and>
                  memory s2 1 = Some (''10'', HMAC_SHA256 7 ''1aaaa'') \<and>
                  fst (retrieve_data 1 (s2\<lparr>tree_arr := [[Some [a, b, (k1, v2), (k2, v1)]]]\<rparr>))
                    = Inr (Some ''bbbb'')
              | _ \<Rightarrow> False))"
    by code_simp
  then show ?thesis by (simp add: Server_1)
qed

text \<open>The run on \<open>Server(3)\<close>, for the invariant of the buckets.\<close>

lemma Server_3: "Server 3 7 draws = Inr (server_3 draws)"
proof -
  have "\<lfloor>log 2 (4::real)\<rfloor> = 2" "\<lceil>log 2 (4::real)\<rceil> = 2" "\<lfloor>log 2 (3::real)\<rfloor> = 1"
    using floor_log_nat_eq_if [of 2 2 4] ceiling_log_nat_eq_if [of 2 1 4]
      floor_log_nat_eq_if [of 2 1 3]
    by simp_all
  then show ?thesis
    by (simp add: Server_def PerfectTree_def fix_size_def build_tree_arr_def server_3_def)
qed

lemma run_3_results:
  "tokens_fresh (server_3 (zero_one 40))"
  "fst (fill_server_with_dummies (server_3 (zero_one 40))) = Inr ()"
  "fst (store_data 1 ''aaaa'' run_3_filled) = Inr None"
  "fst (retrieve_data 1 run_3_stored) = Inr (Some ''aaaa'')"
  "fst (delete_data 1 run_3_retrieved) = Inr (Some (PyBytes ''aaaa''))"
  "fst (push_down run_3_deleted) = Inr ()"
  by code_simp+

theorem bucket_size_invariant_witness:
  "tokens_fresh (server_3 (zero_one 40)) \<and>
   length (tree_arr (server_3 (zero_one 40))) = height (server_3 (zero_one 40)) + 1 \<and>
   fill_server_with_dummies (server_3 (zero_one 40)) = (Inr (), run_3_filled) \<and>
   buckets_full run_3_filled \<and> tokens_fresh run_3_filled \<and>
   store_data 1 ''aaaa'' run_3_filled = (Inr None, run_3_stored) \<and>
   buckets_full run_3_stored \<and> tokens_fresh run_3_stored \<and>
   retrieve_data 1 run_3_stored = (Inr (Some ''aaaa''), run_3_retrieved) \<and>
   buckets_full run_3_retrieved \<and> tokens_fresh run_3_retrieved \<and>
   delete_data 1 run_3_retrieved = (Inr (Some (PyBytes ''aaaa'')), run_3_deleted) \<and>
   buckets_full run_3_deleted \<and> tokens_fresh run_3_deleted \<and>
   fst (push_down run_3_deleted) = Inr () \<and>
   buckets_full (snd (push_down run_3_deleted)) \<and> tokens_fresh (snd (push_down run_3_deleted))"
proof -
  let ?s0 = "server_3 (zero_one 40)"
  have len: "length (tree_arr ?s0) = height ?s0 + 1" by (simp add: server_3_def)
  have e1: "fill_server_with_dummies ?s0 = (Inr (), run_3_filled)"
    using run_3_results(2) by (simp only: run_3_filled_def prod_eq_iff fst_conv snd_conv simp_thms)
  have e2: "store_data 1 ''aaaa'' run_3_filled = (Inr None, run_3_stored)"
    using run_3_results(3) by (simp only: run_3_stored_def prod_eq_iff fst_conv snd_conv simp_thms)
  have e3: "retrieve_data 1 run_3_stored = (Inr (Some ''aaaa''), run_3_retrieved)"
    using run_3_results(4) by (simp only: run_3_retrieved_def prod_eq_iff fst_conv snd_conv simp_thms)
  have e4: "delete_data 1 run_3_retrieved = (Inr (Some (PyBytes ''aaaa'')), run_3_deleted)"
    using run_3_results(5) by (simp only: run_3_deleted_def prod_eq_iff fst_conv snd_conv simp_thms)
  have e5: "push_down run_3_deleted = (Inr (), snd (push_down run_3_deleted))"
    using run_3_results(6) by (simp only: prod_eq_iff fst_conv snd_conv simp_thms)
  have i1: "buckets_full run_3_filled \<and> tokens_fresh run_3_filled"
    using bucket_size_invariant [of ?s0 run_3_filled 1 "''aaaa''", THEN conjunct1]
      run_3_results(1) len e1 by (simp only: simp_thms)
  have i2: "buckets_full run_3_stored \<and> tokens_fresh run_3_stored"
    using bucket_size_invariant [of run_3_filled run_3_filled 1 "''aaaa''", THEN conjunct2,
        THEN mp, OF i1, THEN conjunct1, rule_format, of "Inr None" run_3_stored] e2
    by (simp only: simp_thms sum.simps)
  have i3: "buckets_full run_3_retrieved \<and> tokens_fresh run_3_retrieved"
    using bucket_size_invariant [of run_3_stored run_3_stored 1 "''aaaa''", THEN conjunct2,
        THEN mp, OF i2, THEN conjunct2, THEN conjunct1, rule_format,
        of "Inr (Some ''aaaa'')" run_3_retrieved] e3
    by (simp only: simp_thms sum.simps)
  have i4: "buckets_full run_3_deleted \<and> tokens_fresh run_3_deleted"
    using bucket_size_invariant [of run_3_retrieved run_3_retrieved 1 "''aaaa''", THEN conjunct2,
        THEN mp, OF i3, THEN conjunct2, THEN conjunct2, THEN conjunct1, rule_format,
        of "Inr (Some (PyBytes ''aaaa''))" run_3_deleted] e4
    by (simp only: simp_thms sum.simps)
  have i5: "buckets_full (snd (push_down run_3_deleted)) \<and>
            tokens_fresh (snd (push_down run_3_deleted))"
    using bucket_size_invariant [of run_3_deleted run_3_deleted 1 "''aaaa''", THEN conjunct2,
        THEN mp, OF i4, THEN conjunct2, THEN conjunct2, THEN conjunct2, rule_format,
        of "Inr ()" "snd (push_down run_3_deleted)"] e5
    by (simp only: simp_thms sum.simps)
  from run_3_results(1,6) len e1 e2 e3 e4 i1 i2 i3 i4 i5 show ?thesis by (simp only: simp_thms)
qed

section \<open>The entries of an id\<close>

lemma digit_char_mem: "m < 10 \<Longrightarrow> digit_char m \<in> set ''0123456789''"
  unfolding digit_char_def by (rule nth_mem) simp

lemma digits_chars: "set (digits n) \<subseteq> set ''0123456789'' \<and> digits n \<noteq> []"
proof (induction n rule: digits.induct)
  case (1 n)
  show ?case
  proof (cases "n < 10")
    case True
    then have "digits n = [digit_char n]" by (subst digits.simps) simp
    with digit_char_mem[OF True] show ?thesis by simp
  next
    case False
    then have e: "digits n = digits (n div 10) @ [digit_char (n mod 10)]"
      by (subst digits.simps) simp
    have "n mod 10 < 10" by simp
    from digit_char_mem[OF this] 1[OF False] show ?thesis unfolding e by simp
  qed
qed

lemma digits_not_lowercase: "set ''-0123456789'' \<inter> set ascii_lowercase = {}"
  by (simp add: ascii_lowercase_def)

lemma str_chars:
  assumes "c \<in> set (str i)"
  shows "c \<in> set ''-0123456789''"
proof -
  have d: "c \<in> set (digits n) \<Longrightarrow> c \<in> set ''0123456789''" for n
    using digits_chars[of n] by blast
  show ?thesis
  proof (cases "i < 0")
    case True
    with assms have "c = CHR ''-'' \<or> c \<in> set (digits (nat (- i)))" by (simp add: str_def)
    then show ?thesis
    proof
      assume "c = CHR ''-''"
      then show ?thesis by (simp only: list.set_intros(1))
    next
      assume "c \<in> set (digits (nat (- i)))"
      then show ?thesis by (intro list.set_intros(2) d)
    qed
  next
    case False
    with assms have "c \<in> set (digits (nat i))" by (simp add: str_def)
    then show ?thesis by (intro list.set_intros(2) d)
  qed
qed

lemma str_not_lowercase:
  assumes "set cs \<subseteq> set ascii_lowercase" "cs \<noteq> []"
  shows "str i \<noteq> cs"
proof
  assume e: "str i = cs"
  from assms(2) have h: "hd cs \<in> set cs" by (rule hd_in_set)
  with e have "hd cs \<in> set ''-0123456789''" by (intro str_chars[of _ i]) (simp only:)
  moreover from h assms(1) have "hd cs \<in> set ascii_lowercase" by (rule subsetD[rotated])
  ultimately show False using digits_not_lowercase by blast
qed

lemma distinct_pairs:
  "distinct ls \<Longrightarrow> distinct (concat (map (\<lambda>l. map (\<lambda>j. (l, j)) [0..<f l]) ls))"
  by (induction ls) (auto simp: distinct_map inj_on_def)

lemma distinct_node_ids: "distinct (node_ids s)"
  unfolding node_ids_def by (rule distinct_pairs) simp

lemma count_concat:
  "length (filter P (concat (map f xs))) = sum_list (map (\<lambda>x. length (filter P (f x))) xs)"
  by (induction xs) simp_all

lemma sum_list_change_one:
  fixes f g :: "'a \<Rightarrow> nat"
  assumes "distinct xs" "n \<in> set xs" "\<And>m. m \<in> set xs \<Longrightarrow> m \<noteq> n \<Longrightarrow> g m = f m"
  shows "sum_list (map g xs) + f n = sum_list (map f xs) + g n"
  using assms
proof (induction xs)
  case Nil
  then show ?case by simp
next
  case (Cons a xs)
  show ?case
  proof (cases "a = n")
    case True
    with Cons.prems have "n \<notin> set xs" by simp
    with Cons.prems(3) have "\<And>m. m \<in> set xs \<Longrightarrow> g m = f m" by auto
    then have "map g xs = map f xs" by (intro map_cong refl)
    then have "sum_list (map g xs) = sum_list (map f xs)" by (simp only:)
    with True show ?thesis by simp
  next
    case False
    with Cons.prems have "sum_list (map g xs) + f n = sum_list (map f xs) + g n"
      by (intro Cons.IH) auto
    moreover from False Cons.prems(3) have "g a = f a" by simp
    ultimately show ?thesis by simp
  qed
qed

lemma entries_at_other [simp]:
  "entries_at (s\<lparr>tape := t\<rparr>) = entries_at s" "entries_at (s\<lparr>next_iv := m\<rparr>) = entries_at s"
  "entries_at (s\<lparr>memory := mem\<rparr>) = entries_at s"
  by (simp_all add: entries_at_def fun_eq_iff)

lemma entries_at_upd:
  "n \<in> set (node_ids s) \<Longrightarrow>
   entries_at (upd_node n v s) m =
     (if m = n then (case v of None \<Rightarrow> [] | Some b \<Rightarrow> map (\<lambda>(k, v). (decrypt k, decrypt v)) b)
      else entries_at s m)"
  by (simp add: entries_at_def node_at_upd)

lemma entries_for_other [simp]:
  "entries_for (s\<lparr>tape := t\<rparr>) = entries_for s" "entries_for (s\<lparr>next_iv := m\<rparr>) = entries_for s"
  "entries_for (s\<lparr>memory := mem\<rparr>) = entries_for s"
  by (simp_all add: entries_for_def all_entries_def fun_eq_iff)

lemma entries_for_upd:
  assumes "n \<in> set (node_ids s)"
  shows "entries_for (upd_node n v s) i + length (filter (\<lambda>e. fst e = str i) (entries_at s n)) =
         entries_for s i + length (filter (\<lambda>e. fst e = str i) (entries_at (upd_node n v s) n))"
  unfolding entries_for_def all_entries_def count_concat node_ids_upd
  by (rule sum_list_change_one[OF distinct_node_ids assms]) (simp add: entries_at_upd[OF assms])

lemma key_count_update:
  "decrypt k' \<noteq> x \<Longrightarrow>
   length (filter (\<lambda>e. fst e = x) (map (\<lambda>(k, v). (decrypt k, decrypt v)) (AList.update k' v' b))) =
   length (filter (\<lambda>e. fst e = x) (map (\<lambda>(k, v). (decrypt k, decrypt v)) b))"
  by (induction b) auto

lemma key_count_delete_le:
  "length (filter (\<lambda>e. fst e = x) (map (\<lambda>(k, v). (decrypt k, decrypt v)) (AList.delete k d))) \<le>
   length (filter (\<lambda>e. fst e = x) (map (\<lambda>(k, v). (decrypt k, decrypt v)) d))"
  by (induction d) auto

lemma key_count_delete:
  "(k, v) \<in> set d \<Longrightarrow> decrypt k = x \<Longrightarrow>
   length (filter (\<lambda>e. fst e = x) (map (\<lambda>(k, v). (decrypt k, decrypt v)) (AList.delete k d))) <
   length (filter (\<lambda>e. fst e = x) (map (\<lambda>(k, v). (decrypt k, decrypt v)) d))"
proof (induction d)
  case Nil
  then show ?case by simp
next
  case (Cons a d)
  obtain a1 a2 where a: "a = (a1, a2)" by (cases a)
  show ?case
  proof (cases "a1 = k")
    case True
    with a Cons.prems key_count_delete_le[of x k d] show ?thesis by (simp add: less_Suc_eq_le)
  next
    case False
    with a Cons show ?thesis by auto
  qed
qed


lemma find_SomeD: "find P xs = Some x \<Longrightarrow> P x \<and> x \<in> set xs"
  by (induction xs) (auto split: if_splits)

lemma delete_walk_effect:
  "delete_walk i path ls cur s = (Inr r, s') \<Longrightarrow>
   (r = None \<longrightarrow> s' = s) \<and> (r \<noteq> None \<longrightarrow> entries_for s' i < entries_for s i)"
proof (induction ls arbitrary: cur s)
  case Nil
  then show ?case by (simp add: ret_def)
next
  case (Cons level ls)
  show ?case
  proof (cases cur)
    case None
    with Cons.prems show ?thesis by (simp add: raise_def)
  next
    case (Some n)
    from Cons.prems[unfolded Some delete_walk_blocks] obtain d where
      n: "n \<in> set (node_ids s)" and d: "node_at s n = Some d" and
      run: "(case find (\<lambda>kv. decrypt (fst kv) = str i) d of
         None \<Rightarrow> bnd get (\<lambda>s. delete_walk i path ls
               (if PyStr [path ! level] = PyInt 0 then left s n else right s n))
       | Some (k, v) \<Rightarrow> bnd (replace_by_dummy k d n) (\<lambda>_. ret (Some (PyBytes (tl (decrypt v)))))) s = (Inr r, s')"
      by (auto simp: bnd_def node_dict_eq split: if_splits option.splits)
    show ?thesis
    proof (cases "find (\<lambda>kv. decrypt (fst kv) = str i) d")
      case None
      with run have "delete_walk i path ls
               (if PyStr [path ! level] = PyInt 0 then left s n else right s n) s = (Inr r, s')"
        by (simp add: bnd_def get_def)
      then show ?thesis by (rule Cons.IH)
    next
      case (Some kv)
      obtain k v where kv: "kv = (k, v)" by (cases kv)
      from Some kv have mem: "(k, v) \<in> set d" and dk: "decrypt k = str i"
        using find_SomeD[of "\<lambda>kv. decrypt (fst kv) = str i" d "(k, v)"] by auto
      obtain r1 s1 where rep: "replace_by_dummy k d n s = (r1, s1)"
        by (cases "replace_by_dummy k d n s")
      from run Some kv rep have r1: "r1 = Inr ()" and r: "r = Some (PyBytes (tl (decrypt v)))" and s1: "s1 = s'"
        by (auto simp: bnd_def ret_def split: sum.splits)
      from replace_by_dummy_cases[OF rep] r1 obtain cs t where
        cs: "length cs = DUMMY_LEN" "set cs \<subseteq> set ascii_lowercase" and
        s': "s' = (upd_node n (Some (dict_set (Token (Suc (next_iv s)) cs)
                        (Token (next_iv s) ''00000'') (AList.delete k d))) s)
                      \<lparr>tape := t, next_iv := Suc (Suc (next_iv s))\<rparr>"
        unfolding s1 by auto
      from cs(1) have "cs \<noteq> []" by (auto simp: DUMMY_LEN_def)
      with cs(2) have ne: "decrypt (Token (Suc (next_iv s)) cs) \<noteq> str i"
        using str_not_lowercase[of cs i] by (auto simp: decrypt_def)
      let ?b = "dict_set (Token (Suc (next_iv s)) cs) (Token (next_iv s) ''00000'') (AList.delete k d)"
      have "length (filter (\<lambda>e. fst e = str i) (entries_at (upd_node n (Some ?b) s) n)) <
            length (filter (\<lambda>e. fst e = str i) (entries_at s n))"
        using key_count_delete[OF mem dk] key_count_update[OF ne]
        by (simp add: entries_at_upd[OF n] dict_set_def) (simp add: entries_at_def d)
      with entries_for_upd[OF n, of "Some ?b" i] have "entries_for (upd_node n (Some ?b) s) i < entries_for s i"
        by linarith
      with r s' show ?thesis by simp
    qed
  qed
qed

lemma delete_data_effect:
  assumes "delete_data i s = (Inr r, s')"
  shows "(r = None \<longrightarrow> s' = s) \<and> (r \<noteq> None \<longrightarrow> entries_for s' i < entries_for s i)"
proof -
  from assms obtain bits t where "memory s i = Some (bits, t)"
    and "delete_walk i (drop 1 bits) [0..<length (drop 1 bits)] (Some get_root) s = (Inr r, s')"
    by (auto simp: delete_data_def bnd_def get_def raise_def split: option.splits)
  then show ?thesis using delete_walk_effect by blast
qed

section \<open>delete_data leaves the id in the position map\<close>

text \<open>
  Claim C10. \<open>delete_data\<close> never changes the position map, so an id that it was called for
  without an exception stays in the map: a following \<open>store_data\<close> for the same id returns
  \<open>ID already exists. Please delete it first\<close> and changes nothing. When \<open>delete_data\<close>
  does not find an entry it changes nothing at all; when it finds one it removes it, so that
  the tree holds fewer entries with the key of the id than before, and none if it held at
  most one.
\<close>

theorem delete_data_keeps_position_map:
  assumes "delete_data i s = (Inr r, s')"
  shows "memory s' = memory s \<and> memory s' i \<noteq> None \<and>
         store_data i d s' = (Inr (Some ''ID already exists. Please delete it first''), s') \<and>
         (r = None \<longrightarrow> s' = s) \<and>
         (r \<noteq> None \<longrightarrow> entries_for s' i < entries_for s i \<and>
            (entries_for s i \<le> 1 \<longrightarrow> entries_for s' i = 0))"
proof -
  have m: "memory s' = memory s" by (rule delete_data_memory [OF assms])
  have k: "memory s i \<noteq> None" by (rule delete_data_returns_known [OF assms])
  have st: "store_data i d s' = (Inr (Some ''ID already exists. Please delete it first''), s')"
    by (rule store_after_delete [OF assms])
  from delete_data_effect [OF assms] m k st show ?thesis by auto
qed
section \<open>What the server sees of store_data\<close>

lemma store_data_blocks:
  "store_data i data =
     bnd get (\<lambda>s.
     if memory s i \<noteq> None then ret (Some ''ID already exists. Please delete it first'')
     else
       bnd (node_value get_root) (\<lambda>v.
       bnd (if v = None then fill_server_with_dummies else ret ()) (\<lambda>_.
       bnd get (\<lambda>s1.
       bnd (randint (leaf_min s1) (leaf_max s1)) (\<lambda>leaf.
       bnd (modify (\<lambda>s. s\<lparr>memory := (memory s)(i \<mapsto>
              (bin leaf, HMAC_SHA256 (key s) (str i @ data)))\<rparr>)) (\<lambda>_.
       bnd (node_dict get_root) (\<lambda>d.
       bnd (lift (find_dummy d)) (\<lambda>f.
       bnd (case f of
              None \<Rightarrow> ret ()
            | Some k \<Rightarrow> root_insert k d (str i) (CHR ''1'' # data)) (\<lambda>_.
       bnd push_down (\<lambda>_.
       ret None))))))))))"
  unfolding store_data_def root_insert_def by (rule refl)

lemma root_new_free: "tape_free (root_new N)" "iv_free (root_new N)"
  by (auto simp: tape_free_def iv_free_def root_new_def split: option.splits)

lemma update_keys: "fst ` set (AList.update k v d) = insert k (fst ` set d)"
  by (induction d) auto

lemma update_not_Nil: "AList.update k v d \<noteq> []"
  by (cases d) auto

lemma root_new_replaced:
  assumes "root_new N s" "n \<in> set (node_ids s)" "node_at s n = Some b" "N \<le> m"
  shows "root_new N ((upd_node n (Some (dict_set (Token (Suc m) cs) v (AList.delete k b))) s)
           \<lparr>tape := t, next_iv := Suc (Suc m)\<rparr>)"
proof (cases "n = get_root")
  case True
  from assms(1,3) True have old: "\<forall>k \<in> fst ` set b. N \<le> iv k" by (simp add: root_new_def)
  have "\<forall>k' \<in> fst ` set (dict_set (Token (Suc m) cs) v (AList.delete k b)). N \<le> iv k'"
    using old assms(4) by (auto simp: dict_set_def update_keys keys_delete)
  with assms True show ?thesis
    by (simp add: root_new_def node_at_upd dict_set_def update_not_Nil)
next
  case False
  with assms show ?thesis by (simp add: root_new_def node_at_upd)
qed

lemma root_new_other:
  assumes "root_new N s" "n \<in> set (node_ids s)" "n \<noteq> get_root"
  shows "root_new N (upd_node n v s)"
  using assms by (simp add: root_new_def node_at_upd)

lemma keeps_root_new_push [keep]: "keeps (root_new N) (push_selected_data k data prev level)"
proof (rule keepsI)
  fix s r s'
  assume I: "root_new N s" and run: "push_selected_data k data prev level s = (r, s')"
    and nt: "r \<noteq> Inl TapeExhausted"
  obtain r1 s1 where d: "direction_of k data level s = (r1, s1)"
    by (cases "direction_of k data level s")
  have I1: "root_new N s1" if "r1 \<noteq> Inl TapeExhausted"
    using keepsD[OF keeps_direction_of[OF root_new_free(1)] I d that] .
  show "root_new N s'"
  proof (cases r1)
    case (Inl e)
    with run d nt I1 show ?thesis by (auto simp: push_selected_data_blocks bnd_def)
  next
    case (Inr dir)
    then have I1': "root_new N s1" using I1 by simp
    show ?thesis
    proof (cases "prev \<in> set (node_ids s1) \<and> node_at s1 prev \<noteq> None")
      case False
      with run d Inr I1' show ?thesis
        by (auto simp: push_selected_data_blocks bnd_def get_def node_dict_eq
            split: option.splits if_splits)
    next
      case True
      then obtain b where pv: "prev \<in> set (node_ids s1)" and b: "node_at s1 prev = Some b" by auto
      obtain r3 s3 where rp: "replace_by_dummy k b prev s1 = (r3, s3)"
        by (cases "replace_by_dummy k b prev s1")
      define nx where "nx = (if dir = PyInt 0 then left s1 prev else right s1 prev)"
      have nx: "nn \<noteq> get_root" if "nx = Some nn" for nn
        using that by (auto simp: nx_def left_def right_def get_root_def split: if_splits)
      from run d Inr pv b have run': "bnd (replace_by_dummy k b prev)
           (\<lambda>_. case nx of None \<Rightarrow> raise AttributeError | Some nn \<Rightarrow> insert_into nn k data) s1 = (r, s')"
        by (simp add: push_selected_data_blocks bnd_def get_def node_dict_eq nx_def)
      from I1' have N: "N \<le> next_iv s1" by (simp add: root_new_def)
      have I3: "root_new N s3" if "r3 \<noteq> Inl TapeExhausted"
        using replace_by_dummy_cases[OF rp] that I1' root_new_replaced[OF I1' pv b N]
        by (elim disjE conjE exE) auto
      show ?thesis
      proof (cases r3)
        case (Inl e)
        with run' rp have "r = Inl e" "s' = s3" by (simp_all add: bnd_def)
        with nt I3 Inl show ?thesis by auto
      next
        case (Inr u)
        then have I3': "root_new N s3" using I3 by simp
        show ?thesis
        proof (cases nx)
          case None
          with run' rp Inr have "s' = s3" by (simp add: bnd_def raise_def)
          with I3' show ?thesis by simp
        next
          case (Some nn)
          with run' rp Inr have ins: "insert_into nn k data s3 = (r, s')" by (simp add: bnd_def)
          from insert_into_cases[OF ins] I3' root_new_other[OF I3' _ nx[OF Some]]
          show ?thesis by (elim disjE conjE exE) auto
        qed
      qed
    qed
  qed
qed

lemma keeps_root_new_rand_and_push [keep]: "keeps (root_new N) (rand_and_push n level)"
  unfolding rand_and_push_def by (intro keep root_new_free)

lemma keeps_root_new_push_levels [keep]: "keeps (root_new N) (push_levels ls)"
  by (induction ls) (auto intro!: keep root_new_free)

lemma keeps_root_new_push_down: "keeps (root_new N) push_down"
  unfolding push_down_def by (intro keep)

lemma root_insert_result:
  assumes I: "full_fresh s" and n: "get_root \<in> set (node_ids s)"
    and d: "node_at s get_root = Some d" and k: "find_dummy d = Inr (Some k)"
  shows "\<exists>s1. root_insert k d pk pv s = (Inr (), s1) \<and> root_new (next_iv s) s1"
proof -
  from find_dummy_Some[OF k] have kd: "k \<in> fst ` set d" by force
  from root_insert_spec[OF I n d kd, of pv pk] obtain res where
    r: "root_insert k d pk pv s =
          (Inr (), (upd_node get_root (Some res) s)\<lparr>next_iv := next_iv s + 2 + 2 * length d\<rparr>)"
    and p: "length res = length d" "\<forall>k \<in> fst ` set res. next_iv s \<le> iv k"
    unfolding root_insert_def by auto
  from bucket_facts(1)[OF I n d] p(1) have "res \<noteq> []" by (auto simp: BUCKET_SIZE_def)
  with p(2) n have "root_new (next_iv s)
      ((upd_node get_root (Some res) s)\<lparr>next_iv := next_iv s + 2 + 2 * length d\<rparr>)"
    by (simp add: root_new_def node_at_upd)
  with r show ?thesis by blast
qed

lemma leaf_range: "leaf_min s \<le> leaf_max s"
  by (simp add: leaf_min_def leaf_max_def)

text \<open>
  \<open>store_data\<close> of an id that is not in the position map, in a tree whose root holds a
  dummy: unless the draws run out, the root holds only new tokens afterwards.
\<close>

lemma store_data_root_new:
  assumes I: "full_fresh s" and new: "memory s j = None" and root: "root_has_dummy s"
    and run: "store_data j d s = (r, s')" and nt: "r \<noteq> Inl TapeExhausted"
  shows "root_new (next_iv s) s'"
proof -
  from root obtain d0 k where n: "get_root \<in> set (node_ids s)"
    and d0: "node_at s get_root = Some d0" and k: "find_dummy d0 = Inr (Some k)"
    by (auto simp: root_has_dummy_def split: option.splits sum.splits)
  show ?thesis
  proof (cases "tape s")
    case Nil
    with new n d0 leaf_range[of s] have "store_data j d s = (Inl TapeExhausted, s)"
      by (simp add: store_data_blocks bnd_def get_def ret_def node_value_eq randint_def)
    with run nt show ?thesis by simp
  next
    case (Cons x xs)
    define leaf where "leaf = nat (leaf_min s + int x mod (leaf_max s - leaf_min s + 1))"
    define sb where "sb = s\<lparr>tape := xs, memory := (memory s)(j \<mapsto>
              (bin leaf, HMAC_SHA256 (key s) (str j @ d)))\<rparr>"
    have Ib: "full_fresh sb" using I full_fresh_free(1) by (simp add: sb_def tape_free_def)
    have nb: "get_root \<in> set (node_ids sb)" "node_at sb get_root = Some d0"
      "next_iv sb = next_iv s"
      using n d0 by (simp_all add: sb_def)
    from root_insert_result[OF Ib nb(1,2) k, of "str j" "CHR ''1'' # d"] obtain sc where
      ri: "root_insert k d0 (str j) (CHR ''1'' # d) sb = (Inr (), sc)"
      and rn: "root_new (next_iv s) sc" by (auto simp: nb(3))
    obtain rp sd where pd: "push_down sc = (rp, sd)" by (cases "push_down sc")
    have "store_data j d s = (case rp of Inl e \<Rightarrow> (Inl e, sd) | Inr u \<Rightarrow> (Inr None, sd))"
      using new n d0 k Cons leaf_range[of s] ri pd nb(1,2)
      by (simp add: store_data_blocks bnd_def get_def ret_def node_value_eq randint_def
          modify_def node_dict_eq lift_def sb_def[symmetric] leaf_def[symmetric]
          split: sum.splits)
    with run nt have "rp \<noteq> Inl TapeExhausted" "s' = sd" by (auto split: sum.splits)
    with keepsD[OF keeps_root_new_push_down rn pd] show ?thesis by simp
  qed
qed

lemma root_new_touched:
  assumes "tokens_fresh s" "get_root \<in> set (node_ids s)" "root_new (next_iv s) s'"
  shows "get_root \<in> set (touched s s')"
proof -
  have "node_at s' get_root \<noteq> node_at s get_root"
  proof
    assume e: "node_at s' get_root = node_at s get_root"
    with assms(3) obtain b where b: "node_at s get_root = Some b" "b \<noteq> []"
      "\<forall>k \<in> fst ` set b. next_iv s \<le> iv k"
      by (auto simp: root_new_def split: option.splits)
    from b(2) obtain k v where kv: "(k, v) \<in> set b" by (cases b) auto
    with b(1) have "k \<in> set (keys_at s get_root)" by (force simp: keys_at_def)
    with assms(1,2) have "iv k < next_iv s" by (auto simp: tokens_fresh_def)
    moreover from kv b(3) have "next_iv s \<le> iv k" by force
    ultimately show False by simp
  qed
  with assms(2) show ?thesis by (simp add: touched_def)
qed

text \<open>
  Claim C9 fails. Among the touches that the server sees are the nodes whose value an
  operation replaces. Take any state of an initialized tree in which the scan of the root
  finds a dummy, an id \<open>i\<close> that is in the position map and an id \<open>j\<close> that is not. For
  every list of draws, \<open>store_data\<close> of \<open>i\<close> returns at once: it makes no draw and replaces
  the value of no node; and \<open>store_data\<close> of \<open>j\<close> replaces the value of the root, unless
  the list of draws ends before. So two sequences of operations of the same length that
  differ only in the id of a last \<open>store_data\<close> touch different nodes with certainty, and the
  server learns from them whether the id had been stored before.
\<close>

theorem store_data_touches_reveal_id:
  assumes "buckets_full s" and "tokens_fresh s" and "root_has_dummy s"
    and "memory s i \<noteq> None" and "memory s j = None"
  shows "store_data i d s = (Inr (Some ''ID already exists. Please delete it first''), s) \<and>
         touched s s = [] \<and>
         (\<forall>r s'. store_data j d s = (r, s') \<and> r \<noteq> Inl TapeExhausted \<longrightarrow>
            get_root \<in> set (touched s s'))"
proof (intro conjI allI impI)
  show "store_data i d s = (Inr (Some ''ID already exists. Please delete it first''), s)"
    using assms(4) by (simp add: store_data_def bnd_def get_def ret_def)
  show "touched s s = []" by (simp add: touched_def)
next
  fix r s'
  assume run: "store_data j d s = (r, s') \<and> r \<noteq> Inl TapeExhausted"
  from assms(1,2) have I: "full_fresh s" by (simp add: full_fresh_def)
  from assms(3) have n: "get_root \<in> set (node_ids s)" by (simp add: root_has_dummy_def)
  from store_data_root_new[OF I assms(5,3)] run have "root_new (next_iv s) s'" by blast
  then show "get_root \<in> set (touched s s')" by (rule root_new_touched[OF assms(2) n])
qed
section \<open>The run on Server(3), once more\<close>

lemma run_3_full_fresh: "full_fresh run_3_filled" "full_fresh run_3_stored"
proof -
  have len: "length (tree_arr (server_3 (zero_one 40))) = height (server_3 (zero_one 40)) + 1"
    by (simp add: server_3_def)
  have "fill_server_with_dummies (server_3 (zero_one 40)) = (Inr (), run_3_filled)"
    using run_3_results(2) by (simp only: run_3_filled_def prod_eq_iff fst_conv snd_conv simp_thms)
  from fill_server_spec [OF run_3_results(1) len this]
  show f: "full_fresh run_3_filled" by (simp add: full_fresh_def)
  have "store_data 1 ''aaaa'' run_3_filled = (Inr None, run_3_stored)"
    using run_3_results(3) by (simp only: run_3_stored_def prod_eq_iff fst_conv snd_conv simp_thms)
  from keepsD [OF keeps_store_data f this] show "full_fresh run_3_stored" by simp
qed

lemma run_3_stored_results:
  "entries_for run_3_stored 1 = 1"
  "fst (delete_data 1 run_3_stored) = Inr (Some (PyBytes ''aaaa''))"
  "memory run_3_stored 1 \<noteq> None"
  "memory run_3_stored 2 = None"
  "root_has_dummy run_3_stored"
  "fst (store_data 2 ''bbbb'' run_3_stored) = Inr None"
proof -
  have "case store_data 1 ''aaaa'' run_3_filled of
          (r1, s1) \<Rightarrow>
            entries_for s1 1 = 1 \<and>
            fst (delete_data 1 s1) = Inr (Some (PyBytes ''aaaa'')) \<and>
            memory s1 1 \<noteq> None \<and> memory s1 2 = None \<and> root_has_dummy s1 \<and>
            fst (store_data 2 ''bbbb'' s1) = Inr None"
    by code_simp
  then show "entries_for run_3_stored 1 = 1"
    "fst (delete_data 1 run_3_stored) = Inr (Some (PyBytes ''aaaa''))"
    "memory run_3_stored 1 \<noteq> None"
    "memory run_3_stored 2 = None"
    "root_has_dummy run_3_stored"
    "fst (store_data 2 ''bbbb'' run_3_stored) = Inr None"
    by (simp_all add: run_3_stored_def split: prod.splits)
qed

theorem delete_data_keeps_position_map_witness:
  "delete_data 1 run_3_stored =
     (Inr (Some (PyBytes ''aaaa'')), snd (delete_data 1 run_3_stored)) \<and>
   entries_for run_3_stored 1 \<le> 1 \<and>
   memory (snd (delete_data 1 run_3_stored)) = memory run_3_stored \<and>
   memory (snd (delete_data 1 run_3_stored)) 1 \<noteq> None \<and>
   store_data 1 ''bbbb'' (snd (delete_data 1 run_3_stored)) =
     (Inr (Some ''ID already exists. Please delete it first''), snd (delete_data 1 run_3_stored)) \<and>
   entries_for (snd (delete_data 1 run_3_stored)) 1 = 0"
proof -
  have e: "delete_data 1 run_3_stored =
     (Inr (Some (PyBytes ''aaaa'')), snd (delete_data 1 run_3_stored))"
    using run_3_stored_results(2) by (simp only: prod_eq_iff fst_conv snd_conv simp_thms)
  have one: "entries_for run_3_stored 1 \<le> 1" using run_3_stored_results(1) by simp
  from delete_data_keeps_position_map [OF e, of "''bbbb''"] e one show ?thesis by blast
qed

theorem store_data_touches_reveal_id_witness:
  "buckets_full run_3_stored \<and> tokens_fresh run_3_stored \<and> root_has_dummy run_3_stored \<and>
   memory run_3_stored 1 \<noteq> None \<and> memory run_3_stored 2 = None \<and>
   store_data 1 ''bbbb'' run_3_stored =
     (Inr (Some ''ID already exists. Please delete it first''), run_3_stored) \<and>
   touched run_3_stored run_3_stored = [] \<and>
   fst (store_data 2 ''bbbb'' run_3_stored) = Inr None \<and>
   get_root \<in> set (touched run_3_stored (snd (store_data 2 ''bbbb'' run_3_stored)))"
proof -
  have f: "buckets_full run_3_stored" "tokens_fresh run_3_stored"
    using run_3_full_fresh(2) by (simp_all add: full_fresh_def)
  have e: "store_data 2 ''bbbb'' run_3_stored = (Inr None, snd (store_data 2 ''bbbb'' run_3_stored))"
    using run_3_stored_results(6) by (simp only: prod_eq_iff fst_conv snd_conv simp_thms)
  have ne: "(Inr None :: error + string option) \<noteq> Inl TapeExhausted" by simp
  note t = store_data_touches_reveal_id [OF f run_3_stored_results(5,3,4), of "''bbbb''"]
  from t e ne have "get_root \<in> set (touched run_3_stored (snd (store_data 2 ''bbbb'' run_3_stored)))"
    by blast
  with t f run_3_stored_results show ?thesis by blast
qed
section \<open>PKI.py: the validity window and revocation\<close>

lemmas main_scenario =
  main_start_def main_end_def uni_ca_def huji_cert_def obj1_def expired_cert_def obj5_def
  intel_def mobileye_cert_def obj2_def instant_cert_def lapsed_cert_def main_rp_def
  main_store_def get_revoked_def issue_cert_def sign_obj_def

lemmas verify_defs =
  verify_def check_link_def signature_valid_def is_revoked_def listed_def rsa_verify_def
  update_cert_def revoke_cert_def update_revoked_def last_cert_at_def Let_def

lemma verify_loop_Some:
  "verify_loop rp h clock k last_cert (Some c) =
     (case check_link rp h (clock k) last_cert c of
        Inl e \<Rightarrow> Inl e
      | Inr (Some line) \<Rightarrow> Inr (False, line)
      | Inr None \<Rightarrow> verify_loop rp h clock (Suc k) (ACert c) (issuer_cert c))"
  by (cases c) (auto split: sum.splits option.splits)

lemma chain_certs_Some: "chain_certs (Some c) = c # chain_certs (issuer_cert c)"
  by (cases c) simp

text \<open>
  Claim C7. \<open>verify\<close> treats the validity window as boundary-inclusive. In round \<open>k\<close> of
  the loop, with \<open>clock k\<close> the time read, a certificate that has passed the signature and
  the revocation check of that round
  \<^item> passes the time check when \<open>Valid from\<close> and \<open>Valid to\<close> both equal the time read, so
    that the walk goes on to its issuer;
  \<^item> is rejected with \<open>Certificate has expired.\<close> when \<open>Valid to\<close> is one second before
    the time read (and \<open>Valid from\<close> is not in the future);
  \<^item> is rejected with \<open>Certificate is not valid yet.\<close> when \<open>Valid from\<close> is after the
    time read.
  \<open>verify\<close> is the loop started in round \<open>0\<close> with the signed object.
\<close>

theorem verify_validity_window_inclusive:
  assumes "signature_valid last_cert c = Inr True" and "is_revoked rp h c = Inr False"
  shows "(valid_from c = clock k \<and> valid_to c = clock k \<longrightarrow>
            check_link rp h (clock k) last_cert c = Inr None \<and>
            verify_loop rp h clock k last_cert (Some c) =
              verify_loop rp h clock (Suc k) (ACert c) (issuer_cert c)) \<and>
         (valid_from c \<le> clock k \<and> valid_to c = clock k - 1 \<longrightarrow>
            verify_loop rp h clock k last_cert (Some c) =
              Inr (False, ''Certificate has expired.'')) \<and>
         (valid_from c > clock k \<longrightarrow>
            verify_loop rp h clock k last_cert (Some c) =
              Inr (False, ''Certificate is not valid yet.''))"
  using assms by (simp add: verify_loop_Some check_link_def)

theorem verify_validity_window_inclusive_witness:
  "signature_valid (TheObj obj1) instant_cert = Inr True \<and>
   is_revoked main_rp main_store instant_cert = Inr False \<and>
   verify main_rp main_store (\<lambda>k. main_start) obj1 (Some instant_cert) =
     Inr (True, ''Given object is valid.'') \<and>
   verify main_rp main_store (\<lambda>k. main_start) obj5 (Some expired_cert) =
     Inr (False, ''Certificate has expired.'') \<and>
   verify main_rp main_store (\<lambda>k. main_start - 1) obj1 (Some instant_cert) =
     Inr (False, ''Certificate is not valid yet.'')"
proof -
  have sig1: "signature_valid (TheObj obj1) instant_cert = Inr True"
    by (simp add: main_scenario verify_defs)
  have rev1: "is_revoked main_rp main_store instant_cert = Inr False"
    by (simp add: main_scenario verify_defs)
  have sig5: "signature_valid (TheObj obj5) expired_cert = Inr True"
    by (simp add: main_scenario verify_defs)
  have rev5: "is_revoked main_rp main_store expired_cert = Inr False"
    by (simp add: main_scenario verify_defs)
  have root: "verify_loop main_rp main_store (\<lambda>k. main_start) (Suc 0) (ACert instant_cert)
                (issuer_cert instant_cert) = Inr (True, ''Given object is valid.'')"
    by (simp add: main_scenario verify_defs)
  from verify_validity_window_inclusive [OF sig1 rev1, of "\<lambda>k. main_start" 0]
       verify_validity_window_inclusive [OF sig5 rev5, of "\<lambda>k. main_start" 0]
       verify_validity_window_inclusive [OF sig1 rev1, of "\<lambda>k. main_start - 1" 0]
  show ?thesis
    using sig1 rev1 root by (simp add: verify_def main_scenario)
qed

lemma update_revoked_keeps:
  assumes "\<not> valid_to c < t" and "c \<in> set l"
  shows "c \<in> set (update_revoked t l)"
proof -
  have "c \<in> set l' \<Longrightarrow> c \<notin> set xs \<Longrightarrow> c \<in> set (foldl (\<lambda>l c. remove1 c l) l' xs)" for xs l'
  proof (induction xs arbitrary: l')
    case Nil
    then show ?case by simp
  next
    case (Cons x xs)
    from Cons.prems have "c \<in> set (remove1 x l')" by (auto simp: in_set_remove1)
    with Cons show ?case by simp
  qed
  then show ?thesis using assms by (simp add: update_revoked_def)
qed

lemma revoke_cert_lists:
  assumes "\<not> valid_to c < t"
  shows "c \<in> set (revoke_cert a c t h (ca_revoked a))"
  using update_revoked_keeps [OF assms, of "h (ca_revoked a) @ [c]"]
  by (simp add: revoke_cert_def)

lemma run_call_keeps:
  assumes "\<not> valid_to c < call_time e" and "c \<in> set (h ad)"
  shows "c \<in> set (run_call e h ad)"
proof (cases e)
  case (Revoke_cert a' c' t')
  with assms update_revoked_keeps [of c t' "h (ca_revoked a') @ [c']"] show ?thesis
    by (auto simp: revoke_cert_def)
next
  case (Update_revoked a' t')
  with assms update_revoked_keeps [of c t' "h (ca_revoked a')"] show ?thesis by auto
qed

lemma run_calls_keep:
  assumes "\<forall>e \<in> set calls. \<not> valid_to c < call_time e" and "c \<in> set (h ad)"
  shows "c \<in> set (run_calls calls h ad)"
  using assms unfolding run_calls_def
proof (induction calls arbitrary: h)
  case Nil
  then show ?case by simp
next
  case (Cons e calls)
  from Cons.prems have "c \<in> set (run_call e h ad)" by (intro run_call_keeps) simp_all
  with Cons show ?case by simp
qed

text \<open>
  The walk stops with \<open>Certificate has been revoked.\<close> at position \<open>j\<close> of the chain, or
  before, when the round of position \<open>j\<close> finds a revoked certificate and no earlier round
  fails for another reason.
\<close>

lemma verify_loop_revoked:
  assumes "j < length (chain_certs ch)"
    and "\<forall>i<j. check_link rp h (clock (k + i))
            (if i = 0 then lc else ACert (chain_certs ch ! (i - 1))) (chain_certs ch ! i)
          \<in> {Inr None, Inr (Some ''Certificate has been revoked.'')}"
    and "check_link rp h (clock (k + j))
            (if j = 0 then lc else ACert (chain_certs ch ! (j - 1))) (chain_certs ch ! j)
          = Inr (Some ''Certificate has been revoked.'')"
  shows "verify_loop rp h clock k lc ch = Inr (False, ''Certificate has been revoked.'')"
  using assms
proof (induction j arbitrary: k lc ch)
  case 0
  then obtain c where ch: "ch = Some c" by (cases ch) auto
  with 0 show ?case by (simp add: chain_certs_Some verify_loop_Some)
next
  case (Suc j)
  then obtain c where ch: "ch = Some c" by (cases ch) auto
  let ?cs = "chain_certs (issuer_cert c)"
  have cs: "chain_certs ch = c # ?cs" by (simp add: ch chain_certs_Some)
  from Suc.prems(2) [rule_format, of 0]
  have c0: "check_link rp h (clock k) lc c = Inr None \<or>
            check_link rp h (clock k) lc c = Inr (Some ''Certificate has been revoked.'')"
    by (simp add: cs)
  then show ?case
  proof
    assume "check_link rp h (clock k) lc c = Inr (Some ''Certificate has been revoked.'')"
    then show ?thesis by (simp add: ch verify_loop_Some)
  next
    assume pass: "check_link rp h (clock k) lc c = Inr None"
    have len: "j < length ?cs" using Suc.prems(1) by (simp add: cs)
    have rest: "\<forall>i<j. check_link rp h (clock (Suc k + i))
            (if i = 0 then ACert c else ACert (?cs ! (i - 1))) (?cs ! i)
          \<in> {Inr None, Inr (Some ''Certificate has been revoked.'')}"
    proof (intro allI impI)
      fix i assume "i < j"
      with Suc.prems(2) [rule_format, of "Suc i"]
      show "check_link rp h (clock (Suc k + i))
            (if i = 0 then ACert c else ACert (?cs ! (i - 1))) (?cs ! i)
          \<in> {Inr None, Inr (Some ''Certificate has been revoked.'')}"
        by (cases i) (simp_all add: cs)
    qed
    have last: "check_link rp h (clock (Suc k + j))
            (if j = 0 then ACert c else ACert (?cs ! (j - 1))) (?cs ! j)
          = Inr (Some ''Certificate has been revoked.'')"
      using Suc.prems(3) by (cases j) (simp_all add: cs)
    have "verify_loop rp h clock k lc ch = verify_loop rp h clock (Suc k) (ACert c) (issuer_cert c)"
      by (simp add: ch verify_loop_Some pass)
    also have "\<dots> = Inr (False, ''Certificate has been revoked.'')"
      by (rule Suc.IH [OF len rest last])
    finally show ?thesis .
  qed
qed

text \<open>
  What \<open>verify\<close> looks up for a certificate \<open>c\<close>: the list registered under the issuer
  name of \<open>c\<close> and, when \<open>c\<close> is not found there (or has no issuer) and is a CA
  certificate, the list registered under the name of \<open>c\<close> itself.
\<close>

lemma is_revoked_listed:
  assumes "name_to_revoked rp nm = Some ad" and "c \<in> set (h ad)"
    and "issuer_name c = Some nm \<or>
         (is_ca c \<and> name c = nm \<and>
          (\<forall>inm. issuer_name c = Some inm \<longrightarrow> name_to_revoked rp inm \<noteq> None))"
  shows "is_revoked rp h c = Inr True"
proof (cases "issuer_name c = Some nm")
  case True
  with assms(1,2) show ?thesis by (simp add: is_revoked_def listed_def)
next
  case False
  with assms(3) have own: "is_ca c" "name c = nm"
    and reg: "\<forall>inm. issuer_name c = Some inm \<longrightarrow> name_to_revoked rp inm \<noteq> None" by auto
  show ?thesis
  proof (cases "issuer_name c")
    case None
    with own assms(1,2) show ?thesis by (simp add: is_revoked_def listed_def)
  next
    case (Some inm)
    with reg obtain ad' where "name_to_revoked rp inm = Some ad'" by auto
    with Some own assms(1,2) show ?thesis
      by (cases "c \<in> set (h ad')") (simp_all add: is_revoked_def listed_def)
  qed
qed

text \<open>
  Claim C6, as stated, fails, in three ways.
  \<^item> \<open>verify\<close> stops at the first check that fails. The chain of \<open>obj2\<close> below contains the
    certificate of \<open>Intel\<close>, whose \<open>Valid to\<close> has not passed and which \<open>UniverseCA\<close>,
    registered under its name, has revoked; the leaf of the chain has expired, and \<open>verify\<close>
    stops there with \<open>Certificate has expired.\<close>, before it reaches the revoked certificate.
  \<^item> \<open>verify\<close> looks a certificate up only under its issuer name and, for a CA certificate,
    under its own name. \<open>Intel\<close>, whose list is registered, revokes the certificate that
    \<open>UniverseCA\<close> issued to \<open>HUJI\<close>: the certificate is on the list of \<open>Intel\<close>, and
    \<open>verify\<close> of \<open>obj1\<close> with that certificate returns true.
  \<^item> The look-up under the issuer name comes first and raises \<open>KeyError\<close> when nothing is
    registered under that name. With a relying party that has registered the list of
    \<open>Intel\<close> only, \<open>Intel\<close> revokes its own certificate, and \<open>verify\<close> of \<open>obj2\<close> raises
    \<open>KeyError\<close> in the round of that certificate.
\<close>

theorem revoked_in_chain_counterexample:
  "(ca_cert intel \<in> set (chain_certs (Some lapsed_cert)) \<and>
    \<not> valid_to (ca_cert intel) < main_start \<and>
    name_to_revoked main_rp (ca_name uni_ca) = Some (get_revoked uni_ca) \<and>
    ca_cert intel \<in> set (revoke_cert uni_ca (ca_cert intel) main_start main_store (get_revoked uni_ca)) \<and>
    verify main_rp (revoke_cert uni_ca (ca_cert intel) main_start main_store)
      (\<lambda>k. main_start) obj2 (Some lapsed_cert) = Inr (False, ''Certificate has expired.'')) \<and>
   (huji_cert \<in> set (chain_certs (Some huji_cert)) \<and>
    \<not> valid_to huji_cert < main_start \<and>
    name_to_revoked main_rp (ca_name intel) = Some (get_revoked intel) \<and>
    huji_cert \<in> set (revoke_cert intel huji_cert main_start main_store (get_revoked intel)) \<and>
    verify main_rp (revoke_cert intel huji_cert main_start main_store)
      (\<lambda>k. main_start) obj1 (Some huji_cert) = Inr (True, ''Given object is valid.'')) \<and>
   (ca_cert intel \<in> set (chain_certs (Some mobileye_cert)) \<and>
    \<not> valid_to (ca_cert intel) < main_start \<and>
    name_to_revoked (main_rp\<lparr>name_to_revoked := [ca_name intel \<mapsto> get_revoked intel]\<rparr>)
      (ca_name intel) = Some (get_revoked intel) \<and>
    ca_cert intel \<in> set (revoke_cert intel (ca_cert intel) main_start main_store (get_revoked intel)) \<and>
    verify (main_rp\<lparr>name_to_revoked := [ca_name intel \<mapsto> get_revoked intel]\<rparr>)
      (revoke_cert intel (ca_cert intel) main_start main_store)
      (\<lambda>k. main_start) obj2 (Some mobileye_cert) = Inl KeyError)"
  by (simp add: main_scenario verify_defs)

text \<open>
  Claim C6, amended. Let \<open>c\<close> be a certificate whose \<open>Valid to\<close> has not passed when the CA
  \<open>a\<close> revokes it, nor at any later call of \<open>revoke_cert\<close> or \<open>update_revoked\<close> (on any CA)
  that precedes the \<open>verify\<close>. Let the list of \<open>a\<close> be registered under a name \<open>nm\<close> under
  which \<open>verify\<close> looks \<open>c\<close> up: \<open>nm\<close> is the issuer name of \<open>c\<close>, or \<open>c\<close> is a CA
  certificate (of a root or of an intermediate CA) with the name \<open>nm\<close> and, if \<open>c\<close> has an
  issuer, some list is registered under the issuer name. Then \<open>verify\<close> of an object whose
  chain holds \<open>c\<close> at position \<open>j\<close> returns false with \<open>Certificate has been revoked.\<close>,
  provided the walk is not stopped for another reason before the revocation check of \<open>c\<close>:
  every round before \<open>j\<close> passes its checks or finds a revoked certificate itself, and the
  signature presented to \<open>c\<close> is valid.
\<close>

theorem revoked_cert_rejected:
  assumes valid: "\<not> valid_to c < t"
    and later: "\<forall>e \<in> set calls. \<not> valid_to c < call_time e"
    and registered: "name_to_revoked rp nm = Some (get_revoked a)"
    and looked_up: "issuer_name c = Some nm \<or>
                    (is_ca c \<and> name c = nm \<and>
                     (\<forall>inm. issuer_name c = Some inm \<longrightarrow> name_to_revoked rp inm \<noteq> None))"
    and at_j: "j < length (chain_certs cert_chain)" "chain_certs cert_chain ! j = c"
    and before: "\<forall>i<j. check_link rp (run_calls calls (revoke_cert a c t h)) (clock i)
                   (last_cert_at ob (chain_certs cert_chain) i) (chain_certs cert_chain ! i)
                 \<in> {Inr None, Inr (Some ''Certificate has been revoked.'')}"
    and sig_ok: "signature_valid (last_cert_at ob (chain_certs cert_chain) j) c = Inr True"
  shows "verify rp (run_calls calls (revoke_cert a c t h)) clock ob cert_chain =
         Inr (False, ''Certificate has been revoked.'')"
proof -
  let ?h = "run_calls calls (revoke_cert a c t h)"
  have "c \<in> set (revoke_cert a c t h (ca_revoked a))" by (rule revoke_cert_lists [OF valid])
  then have mem: "c \<in> set (?h (get_revoked a))"
    unfolding get_revoked_def by (rule run_calls_keep [OF later])
  have rev: "is_revoked rp ?h c = Inr True"
    using registered mem looked_up by (rule is_revoked_listed)
  have link: "check_link rp ?h now (last_cert_at ob (chain_certs cert_chain) j) c =
              Inr (Some ''Certificate has been revoked.'')" for now
    by (simp add: check_link_def sig_ok rev)
  show ?thesis
    unfolding verify_def
    using verify_loop_revoked [of j cert_chain rp ?h clock 0 "TheObj ob"] at_j before
      link [of "clock j"]
    by (simp add: last_cert_at_def)
qed

theorem revoked_cert_rejected_witness:
  "(\<not> valid_to (ca_cert intel) < main_start \<and>
    \<not> valid_to (ca_cert intel) < call_time (Update_revoked uni_ca (main_start + 5)) \<and>
    \<not> valid_to (ca_cert intel) < call_time (Revoke_cert uni_ca expired_cert (main_start + 7)) \<and>
    name_to_revoked main_rp (ca_name uni_ca) = Some (get_revoked uni_ca) \<and>
    issuer_name (ca_cert intel) = Some (ca_name uni_ca) \<and>
    chain_certs (Some mobileye_cert) ! 1 = ca_cert intel \<and>
    verify main_rp
      (run_calls [Update_revoked uni_ca (main_start + 5),
                  Revoke_cert uni_ca expired_cert (main_start + 7)]
         (revoke_cert uni_ca (ca_cert intel) main_start main_store))
      (\<lambda>k. main_start + 9) obj2 (Some mobileye_cert) =
        Inr (False, ''Certificate has been revoked.'')) \<and>
   (name_to_revoked main_rp (ca_name intel) = Some (get_revoked intel) \<and>
    is_ca (ca_cert intel) \<and> name (ca_cert intel) = ca_name intel \<and>
    issuer_name (ca_cert intel) \<noteq> None \<and>
    verify main_rp (run_calls [] (revoke_cert intel (ca_cert intel) main_start main_store))
      (\<lambda>k. main_start) obj2 (Some mobileye_cert) =
        Inr (False, ''Certificate has been revoked.''))"
proof -
  have a: "verify main_rp
      (run_calls [Update_revoked uni_ca (main_start + 5),
                  Revoke_cert uni_ca expired_cert (main_start + 7)]
         (revoke_cert uni_ca (ca_cert intel) main_start main_store))
      (\<lambda>k. main_start + 9) obj2 (Some mobileye_cert) =
        Inr (False, ''Certificate has been revoked.'')"
    using revoked_cert_rejected [of "ca_cert intel" main_start
          "[Update_revoked uni_ca (main_start + 5), Revoke_cert uni_ca expired_cert (main_start + 7)]"
          main_rp "ca_name uni_ca" uni_ca 1
          "Some mobileye_cert" main_store "\<lambda>k. main_start + 9" obj2]
    by (simp add: main_scenario verify_defs run_calls_def)
  have b: "verify main_rp (run_calls [] (revoke_cert intel (ca_cert intel) main_start main_store))
      (\<lambda>k. main_start) obj2 (Some mobileye_cert) =
        Inr (False, ''Certificate has been revoked.'')"
    using revoked_cert_rejected [of "ca_cert intel" main_start "[]"
          main_rp "ca_name intel" intel 1
          "Some mobileye_cert" main_store "\<lambda>k. main_start" obj2]
    by (simp add: main_scenario verify_defs run_calls_def)
  show ?thesis using a b by (simp add: main_scenario run_calls_def)
qed
end
